theory Spec2Isabelle
  imports Complex_Main "HOL-Library.Word"
begin

unbundle bit_operations_syntax

section \<open>Entity handles\<close>

text \<open>
  \<^verbatim>\<open>using Entity = u32; // packed: [gen:16][idx:16]\<close>
  A handle is a 32-bit word; the low half is the slot index, the high half the
  generation.
\<close>

type_synonym u8 = "8 word"
type_synonym u16 = "16 word"
type_synonym u32 = "32 word"
type_synonym Entity = "32 word"

definition ent_idx :: "Entity \<Rightarrow> u16" where
  "ent_idx e = ucast (e AND 0xFFFF)"

definition ent_gen :: "Entity \<Rightarrow> u16" where
  "ent_gen e = ucast (drop_bit 16 e)"

definition make_ent :: "u16 \<Rightarrow> u16 \<Rightarrow> Entity" where
  "make_ent idx g = push_bit 16 (ucast g) OR ucast idx"

section \<open>Registry\<close>

text \<open>
  \<^verbatim>\<open>struct Registry { std::vector<u16> gen; std::vector<u16> free_list; ... }\<close>
  The free list is used as a stack (\<^verbatim>\<open>back\<close>/\<^verbatim>\<open>pop_back\<close>/\<^verbatim>\<open>push_back\<close>): its top is the
  last element of the list.
\<close>

record Registry =
  gen :: "u16 list"
  free_list :: "u16 list"

definition empty_registry :: Registry where
  "empty_registry = \<lparr>gen = [], free_list = []\<rparr>"

text \<open>
  \<^verbatim>\<open>create\<close> pops a free slot if there is one, otherwise appends a slot with generation
  1; the new slot's index is the old length cut to 16 bits. It reads \<^verbatim>\<open>gen[idx]\<close>
  unchecked: the read out of range is the result \<open>None\<close>.
\<close>

definition create :: "Registry \<Rightarrow> (Entity \<times> Registry) option" where
  "create r =
     (let (idx, r') =
            (if free_list r \<noteq> []
             then (last (free_list r), r\<lparr>free_list := butlast (free_list r)\<rparr>)
             else (of_nat (length (gen r)) :: u16, r\<lparr>gen := gen r @ [1]\<rparr>))
      in if unat idx < length (gen r')
         then Some (make_ent idx (gen r' ! unat idx), r')
         else None)"

definition alive :: "Registry \<Rightarrow> Entity \<Rightarrow> bool" where
  "alive r e =
     (let idx = ent_idx e
      in if unat idx \<ge> length (gen r) then False
         else gen r ! unat idx = ent_gen e)"

definition destroy :: "Entity \<Rightarrow> Registry \<Rightarrow> Registry" where
  "destroy e r =
     (let idx = ent_idx e
      in if unat idx \<ge> length (gen r) then r
         else if gen r ! unat idx \<noteq> ent_gen e then r
         else r\<lparr>gen := (gen r)[unat idx := gen r ! unat idx + 1],
                free_list := free_list r @ [idx]\<rparr>)"

text \<open>Sequences of registry operations, run from left to right.\<close>

datatype reg_op = Create | Destroy Entity

fun reg_step :: "reg_op \<Rightarrow> Registry \<Rightarrow> Registry option" where
  "reg_step Create r = map_option snd (create r)"
| "reg_step (Destroy e) r = Some (destroy e r)"

fun reg_run :: "reg_op list \<Rightarrow> Registry \<Rightarrow> Registry option" where
  "reg_run [] r = Some r"
| "reg_run (x # xs) r =
     (case reg_step x r of None \<Rightarrow> None | Some r' \<Rightarrow> reg_run xs r')"

text \<open>The operations that can bump the generation of slot \<open>s\<close>: the destroys of a handle of that slot.\<close>

fun destroys_slot :: "u16 \<Rightarrow> reg_op \<Rightarrow> bool" where
  "destroys_slot s Create = False"
| "destroys_slot s (Destroy e) = (ent_idx e = s)"

text \<open>Every free index names an existing slot.\<close>

definition reg_ok :: "Registry \<Rightarrow> bool" where
  "reg_ok r = list_all (\<lambda>i. unat i < length (gen r)) (free_list r)"

text \<open>
  \<open>n\<close> rounds of "create, then destroy the handle just created" on slot 0, the
  first round destroying generation \<open>g\<close>.
\<close>

fun recycle_ops :: "nat \<Rightarrow> u16 \<Rightarrow> reg_op list" where
  "recycle_ops 0 g = []"
| "recycle_ops (Suc n) g = Create # Destroy (make_ent 0 g) # recycle_ops n (g + 1)"

section \<open>Component pools\<close>

text \<open>
  \<^verbatim>\<open>template<typename T> struct Pool {
      std::vector<u16> dense_idx; std::vector<T> dense_val; std::vector<i32> sparse; }\<close>
  The entries of \<^verbatim>\<open>sparse\<close> are \<open>-1\<close> or a dense position written as
  \<^verbatim>\<open>(int)dense_idx.size()\<close>; they are integers here (the dense arrays of a pool built by
  \<^verbatim>\<open>add\<close> and \<^verbatim>\<open>remove\<close> never hold more than 65536 rows, see \<open>pool_inv\<close>, so the cast is
  exact).
\<close>

record 'a Pool =
  dense_idx :: "u16 list"
  dense_val :: "'a list"
  sparse :: "int list"

definition empty_pool :: "'a Pool" where
  "empty_pool = \<lparr>dense_idx = [], dense_val = [], sparse = []\<rparr>"

definition ensure_sparse :: "nat \<Rightarrow> 'a Pool \<Rightarrow> 'a Pool" where
  "ensure_sparse n p =
     (if length (sparse p) < n
      then p\<lparr>sparse := sparse p @ replicate (n - length (sparse p)) (-1)\<rparr>
      else p)"

definition has :: "'a Pool \<Rightarrow> Entity \<Rightarrow> bool" where
  "has p e =
     (let idx = ent_idx e
      in if unat idx \<ge> length (sparse p) then False
         else let di = sparse p ! unat idx
              in di \<ge> 0 \<and> di < int (length (dense_idx p)) \<and> dense_idx p ! nat di = idx)"

text \<open>
  \<^verbatim>\<open>get\<close> returns a pointer to the row or \<^verbatim>\<open>nullptr\<close>. \<open>get_pos\<close> is the row the pointer
  refers to, \<open>get\<close> the value read through it.
\<close>

definition get_pos :: "'a Pool \<Rightarrow> Entity \<Rightarrow> nat option" where
  "get_pos p e =
     (let idx = ent_idx e
      in if unat idx \<ge> length (sparse p) then None
         else let di = sparse p ! unat idx
              in if di < 0 then None
                 else if di \<ge> int (length (dense_idx p)) then None
                 else if dense_idx p ! nat di \<noteq> idx then None
                 else Some (nat di))"

definition get :: "'a Pool \<Rightarrow> Entity \<Rightarrow> 'a option" where
  "get p e = map_option (\<lambda>di. dense_val p ! di) (get_pos p e)"

definition add :: "'a Pool \<Rightarrow> Entity \<Rightarrow> 'a \<Rightarrow> 'a Pool" where
  "add p0 e v =
     (let p = ensure_sparse (unat (ent_idx e) + 1) p0;
          idx = ent_idx e;
          di = sparse p ! unat idx
      in if di \<ge> 0 \<and> nat di < length (dense_idx p) \<and> dense_idx p ! nat di = idx
         then p\<lparr>dense_val := (dense_val p)[nat di := v]\<rparr>
         else p\<lparr>sparse := (sparse p)[unat idx := int (length (dense_idx p))],
                dense_idx := dense_idx p @ [idx],
                dense_val := dense_val p @ [v]\<rparr>)"

text \<open>
  \<^verbatim>\<open>remove\<close> does not repeat the owner check of \<^verbatim>\<open>has\<close>: it trusts a non-negative sparse
  entry. The move of the last row and the two \<^verbatim>\<open>pop_back\<close> follow the source's order.
\<close>

definition remove :: "'a Pool \<Rightarrow> Entity \<Rightarrow> 'a Pool" where
  "remove p e =
     (let idx = ent_idx e
      in if unat idx \<ge> length (sparse p) then p
         else let di = sparse p ! unat idx
              in if di < 0 then p
                 else let last_pos = length (dense_idx p) - 1;
                          p1 = (if nat di \<noteq> last_pos
                                then let moved = dense_idx p ! last_pos
                                     in p\<lparr>dense_idx := (dense_idx p)[nat di := moved],
                                           dense_val := (dense_val p)[nat di := dense_val p ! last_pos],
                                           sparse := (sparse p)[unat moved := di]\<rparr>
                                else p)
                      in p1\<lparr>dense_idx := butlast (dense_idx p1),
                            dense_val := butlast (dense_val p1),
                            sparse := (sparse p1)[unat idx := -1]\<rparr>)"

definition size_pool :: "'a Pool \<Rightarrow> nat" where
  "size_pool p = length (dense_idx p)"

text \<open>
  \<^verbatim>\<open>entity_at\<close> reads \<^verbatim>\<open>dense_idx[i]\<close> and \<^verbatim>\<open>r.gen[idx]\<close> unchecked; either read out of
  range is \<open>None\<close>.
\<close>

definition entity_at :: "'a Pool \<Rightarrow> nat \<Rightarrow> Registry \<Rightarrow> Entity option" where
  "entity_at p i r =
     (if i \<ge> length (dense_idx p) then None
      else let idx = dense_idx p ! i
           in if unat idx \<ge> length (gen r) then None
              else Some (make_ent idx (gen r ! unat idx)))"

datatype 'a pool_op = Add Entity 'a | Remove Entity

fun pool_step :: "'a Pool \<Rightarrow> 'a pool_op \<Rightarrow> 'a Pool" where
  "pool_step p (Add e v) = add p e v"
| "pool_step p (Remove e) = remove p e"

definition pool_run :: "'a pool_op list \<Rightarrow> 'a Pool" where
  "pool_run ops = foldl pool_step empty_pool ops"

text \<open>
  The sparse/dense invariant: the two dense arrays have one length, every dense row's
  owner has a sparse entry pointing back at the row, and every non-negative sparse entry
  points at a row owned by its index.
\<close>

definition pool_inv :: "'a Pool \<Rightarrow> bool" where
  "pool_inv p \<longleftrightarrow>
     length (dense_val p) = length (dense_idx p) \<and>
     (\<forall>d < length (dense_idx p).
        unat (dense_idx p ! d) < length (sparse p) \<and>
        sparse p ! unat (dense_idx p ! d) = int d) \<and>
     (\<forall>i < length (sparse p).
        sparse p ! i \<ge> 0 \<longrightarrow>
          nat (sparse p ! i) < length (dense_idx p) \<and>
          unat (dense_idx p ! nat (sparse p ! i)) = i)"

section \<open>Single-precision arithmetic\<close>

text \<open>
  \<^verbatim>\<open>using f32 = float;\<close> The tile world, the physics and the light map compute with floats.
  The model does not fix a float format: a value of type \<open>'f\<close> is a float and the
  operations the code applies to floats are the fields of a record that every function
  takes as its first argument. A theorem proved for all such records holds for IEEE
  binary32 in particular.
  \<^item> \<open>f_lit m e\<close> is the decimal literal \<open>m / 10^e\<close> (\<^verbatim>\<open>0.08f\<close> is \<open>f_lit 8 2\<close>);
  \<^item> \<open>f_of_int\<close> is the conversion \<^verbatim>\<open>(f32)i\<close>, \<open>f_to_int\<close> the cast \<^verbatim>\<open>(int)x\<close>;
  \<^item> \<open>f_lt\<close>, \<open>f_le\<close>, \<open>f_eq\<close> are \<^verbatim>\<open><\<close>, \<^verbatim>\<open><=\<close> and \<^verbatim>\<open>==\<close>;
  \<^item> \<open>f_sin\<close> and \<open>f_floor\<close> are \<^verbatim>\<open>std::sin\<close> and \<^verbatim>\<open>std::floor\<close>.
\<close>

record 'f fops =
  f_lit :: "int \<Rightarrow> nat \<Rightarrow> 'f"
  f_of_int :: "int \<Rightarrow> 'f"
  f_to_int :: "'f \<Rightarrow> int"
  f_add :: "'f \<Rightarrow> 'f \<Rightarrow> 'f"
  f_sub :: "'f \<Rightarrow> 'f \<Rightarrow> 'f"
  f_mul :: "'f \<Rightarrow> 'f \<Rightarrow> 'f"
  f_div :: "'f \<Rightarrow> 'f \<Rightarrow> 'f"
  f_lt :: "'f \<Rightarrow> 'f \<Rightarrow> bool"
  f_le :: "'f \<Rightarrow> 'f \<Rightarrow> bool"
  f_eq :: "'f \<Rightarrow> 'f \<Rightarrow> bool"
  f_sin :: "'f \<Rightarrow> 'f"
  f_floor :: "'f \<Rightarrow> 'f"

text \<open>
  One concrete arithmetic, for evaluating the model at concrete inputs: exact rational
  arithmetic, in which \<open>None\<close> is a value the instance does not compute (a quotient by
  zero, the sine of anything but 0). Like a NaN, \<open>None\<close> propagates through the
  operations and makes every comparison false. Wherever all operands and results are
  binary32 numbers (small integers and small dyadic fractions are), binary32 computes
  the same values, since its operations round the exact result.
\<close>

definition lift2 :: "(rat \<Rightarrow> rat \<Rightarrow> 'a) \<Rightarrow> rat option \<Rightarrow> rat option \<Rightarrow> 'a option" where
  "lift2 g a b = (case a of None \<Rightarrow> None | Some x \<Rightarrow> (case b of None \<Rightarrow> None | Some y \<Rightarrow> Some (g x y)))"

definition rel2 :: "(rat \<Rightarrow> rat \<Rightarrow> bool) \<Rightarrow> rat option \<Rightarrow> rat option \<Rightarrow> bool" where
  "rel2 g a b = (case a of None \<Rightarrow> False | Some x \<Rightarrow> (case b of None \<Rightarrow> False | Some y \<Rightarrow> g x y))"

definition exact_ops :: "rat option fops" where
  "exact_ops = \<lparr>
     f_lit = (\<lambda>m e. Some (of_int m / 10 ^ e)),
     f_of_int = (\<lambda>i. Some (of_int i)),
     f_to_int = (\<lambda>a. case a of None \<Rightarrow> 0 | Some x \<Rightarrow> (if x \<ge> 0 then \<lfloor>x\<rfloor> else - \<lfloor>- x\<rfloor>)),
     f_add = lift2 (+),
     f_sub = lift2 (-),
     f_mul = lift2 (*),
     f_div = (\<lambda>a b. if b = Some 0 then None else lift2 (/) a b),
     f_lt = rel2 (<),
     f_le = rel2 (\<le>),
     f_eq = rel2 (=),
     f_sin = (\<lambda>a. if a = Some 0 then Some 0 else None),
     f_floor = map_option (\<lambda>x. of_int \<lfloor>x\<rfloor>)\<rparr>"

text \<open>
  A second arithmetic: the real numbers, with the real sine. It is the arithmetic that
  binary32 rounds; the cast \<^verbatim>\<open>(int)x\<close> truncates towards zero.
\<close>

definition real_ops :: "real fops" where
  "real_ops = \<lparr>
     f_lit = (\<lambda>m e. of_int m / 10 ^ e),
     f_of_int = of_int,
     f_to_int = (\<lambda>x. if x \<ge> 0 then \<lfloor>x\<rfloor> else - \<lfloor>- x\<rfloor>),
     f_add = (+),
     f_sub = (-),
     f_mul = (*),
     f_div = (/),
     f_lt = (<),
     f_le = (\<le>),
     f_eq = (=),
     f_sin = sin,
     f_floor = (\<lambda>x. of_int \<lfloor>x\<rfloor>)\<rparr>"

record 'f v2 =
  vx :: 'f
  vy :: 'f

section \<open>Tile world\<close>

text \<open>
  \<^verbatim>\<open>int\<close> is 32 bits wide. Signed overflow is undefined in C++; the model writes out the
  two's-complement wrap-around of the engine's targets, so that every \<^verbatim>\<open>int\<close> result is
  \<open>wrap32\<close> of the mathematical one. \<open>cdiv\<close> is C's division, which truncates.
\<close>

definition wrap32 :: "int \<Rightarrow> int" where
  "wrap32 x = (x + 2147483648) mod 4294967296 - 2147483648"

definition cdiv :: "int \<Rightarrow> int \<Rightarrow> int" where
  "cdiv a b = (if (a < 0) = (b < 0) then \<bar>a\<bar> div \<bar>b\<bar> else - (\<bar>a\<bar> div \<bar>b\<bar>))"

definition CHUNK :: int where
  "CHUNK = 32"

text \<open>
  \<^verbatim>\<open>struct Chunk { int cx, cy; std::vector<u16> tiles; bool used; }\<close> and the fields of
  \<^verbatim>\<open>World\<close> that the simulation reads: the tile size and the chunk table
  (\<^verbatim>\<open>std::unordered_map<long long, Chunk> map\<close>).
\<close>

record Chunk =
  cx :: int
  cy :: int
  tiles :: "u16 list"
  used :: bool

record World =
  tile_px :: int
  chunk_map :: "64 word \<rightharpoonup> Chunk"

definition solid :: "u16 \<Rightarrow> bool" where
  "solid t \<longleftrightarrow> t \<noteq> 0"

text \<open>
  \<^verbatim>\<open>key\<close>: \<^verbatim>\<open>((long long)(u32)cx << 32) ^ (long long)(u32)cy\<close>, as a 64-bit word.
\<close>

definition key :: "int \<Rightarrow> int \<Rightarrow> 64 word" where
  "key x y = push_bit 32 (word_of_int (x mod 4294967296)) XOR word_of_int (y mod 4294967296)"

text \<open>
  The terrain generator. \<open>ground\<close> is
  \<^verbatim>\<open>(int)(18.0f + (std::sin(wx*0.08f)*4.0f + std::sin(wx*0.02f)*10.0f))\<close>; tile 1 is dirt,
  2 stone, 4 grass. The \<open>y\<close> axis points down, so a tile below the ground has the larger
  \<open>wy\<close>.
\<close>

definition ground :: "'f fops \<Rightarrow> int \<Rightarrow> int" where
  "ground F wx =
     (let h = f_add F (f_mul F (f_sin F (f_mul F (f_of_int F wx) (f_lit F 8 2))) (f_lit F 4 0))
                      (f_mul F (f_sin F (f_mul F (f_of_int F wx) (f_lit F 2 2))) (f_lit F 10 0))
      in f_to_int F (f_add F (f_lit F 18 0) h))"

definition gen_tile :: "'f fops \<Rightarrow> int \<Rightarrow> int \<Rightarrow> u16" where
  "gen_tile F wx wy =
     (let g = ground F wx
      in if wy > g then (if wy > wrap32 (g + 10) then 2 else 1)
         else if wy = g then 4
         else 0)"

definition new_chunk :: "'f fops \<Rightarrow> int \<Rightarrow> int \<Rightarrow> Chunk" where
  "new_chunk F x y =
     \<lparr>cx = x, cy = y,
      tiles = concat (map (\<lambda>ty. map (\<lambda>tx.
                 gen_tile F (wrap32 (wrap32 (x * CHUNK) + int tx)) (wrap32 (wrap32 (y * CHUNK) + int ty)))
                 [0..<32]) [0..<32]),
      used = True\<rparr>"

text \<open>
  \<^verbatim>\<open>get_chunk\<close> returns a reference into the table; the model returns the key under which
  the chunk is stored, the chunk, and the table with the chunk in it.
\<close>

definition get_chunk :: "'f fops \<Rightarrow> World \<Rightarrow> int \<Rightarrow> int \<Rightarrow> 64 word \<times> Chunk \<times> World" where
  "get_chunk F w x y =
     (let k = key x y
      in case chunk_map w k of
           Some c \<Rightarrow> (k, c, w)
         | None \<Rightarrow> (let c = new_chunk F x y
                    in (k, c, w\<lparr>chunk_map := (chunk_map w)(k \<mapsto> c)\<rparr>)))"

text \<open>
  Chunk coordinate and local offset of a world tile coordinate:
  \<^verbatim>\<open>int cx = (wx>=0)? (wx/CHUNK) : -(((-wx)+CHUNK-1)/CHUNK); int lx = wx - cx*CHUNK;\<close>
\<close>

definition chunk_of :: "int \<Rightarrow> int" where
  "chunk_of wx =
     (if wx \<ge> 0 then cdiv wx CHUNK
      else wrap32 (- cdiv (wrap32 (wrap32 (wrap32 (- wx) + CHUNK) - 1)) CHUNK))"

definition local_of :: "int \<Rightarrow> int" where
  "local_of wx = wrap32 (wx - wrap32 (chunk_of wx * CHUNK))"

text \<open>
  The index \<^verbatim>\<open>(size_t)ly*(size_t)CHUNK + (size_t)lx\<close> in 64-bit unsigned arithmetic. A read
  or write at an index outside the vector is the result \<open>None\<close>.
\<close>

definition tile_index :: "int \<Rightarrow> int \<Rightarrow> nat" where
  "tile_index lx ly =
     nat (((ly mod 18446744073709551616) * CHUNK + lx mod 18446744073709551616)
            mod 18446744073709551616)"

definition world_get :: "'f fops \<Rightarrow> World \<Rightarrow> int \<Rightarrow> int \<Rightarrow> (u16 \<times> World) option" where
  "world_get F w wx wy =
     (let lx = local_of wx; ly = local_of wy;
          (k, c, w') = get_chunk F w (chunk_of wx) (chunk_of wy);
          i = tile_index lx ly
      in if i < length (tiles c) then Some (tiles c ! i, w') else None)"

definition world_set :: "'f fops \<Rightarrow> World \<Rightarrow> int \<Rightarrow> int \<Rightarrow> u16 \<Rightarrow> World option" where
  "world_set F w wx wy v =
     (let lx = local_of wx; ly = local_of wy;
          (k, c, w') = get_chunk F w (chunk_of wx) (chunk_of wy);
          i = tile_index lx ly
      in if i < length (tiles c)
         then Some (w'\<lparr>chunk_map := (chunk_map w')(k \<mapsto> c\<lparr>tiles := (tiles c)[i := v]\<rparr>)\<rparr>)
         else None)"

text \<open>Every stored chunk has its \<open>32 * 32\<close> tiles.\<close>

definition world_ok :: "World \<Rightarrow> bool" where
  "world_ok w \<longleftrightarrow> (\<forall>k c. chunk_map w k = Some c \<longrightarrow> length (tiles c) = 1024)"

section \<open>Light map\<close>

text \<open>
  \<^verbatim>\<open>struct Camera2D { v2 pos; f32 zoom; f32 rot; v2 viewport; }\<close>,
  \<^verbatim>\<open>struct LightSource { v2 pos_px; int radius_tiles; u8 intensity; }\<close> and
  \<^verbatim>\<open>struct LightMap { int w, h; int ox, oy; std::vector<u8> L; u8 ambient; }\<close>
  (the fields \<^verbatim>\<open>w\<close>, \<^verbatim>\<open>h\<close> and \<^verbatim>\<open>L\<close> are \<open>grid_w\<close>, \<open>grid_h\<close> and \<open>L_grid\<close> here).
\<close>

record 'f Camera2D =
  cam_pos :: "'f v2"
  zoom :: 'f
  cam_rot :: 'f
  viewport :: "'f v2"

record 'f LightSource =
  pos_px :: "'f v2"
  radius_tiles :: int
  intensity :: u8

record LightMap =
  grid_w :: int
  grid_h :: int
  ox :: int
  oy :: int
  L_grid :: "u8 list"
  ambient :: u8

text \<open>\<^verbatim>\<open>struct Node{ int x,y; u8 v; }\<close>\<close>

type_synonym Node = "int \<times> int \<times> u8"

definition cell_index :: "LightMap \<Rightarrow> int \<Rightarrow> int \<Rightarrow> nat" where
  "cell_index lm x y = nat y * nat (grid_w lm) + nat x"

text \<open>
  The closure \<^verbatim>\<open>push\<close> of \<^verbatim>\<open>build\<close>: it raises a cell and appends it to the queue. The
  accesses \<^verbatim>\<open>L[idx]\<close> are unchecked; outside the vector the result is \<open>None\<close>.
\<close>

definition push :: "LightMap \<Rightarrow> Node list \<Rightarrow> int \<Rightarrow> int \<Rightarrow> u8 \<Rightarrow> (LightMap \<times> Node list) option" where
  "push lm q x y v =
     (if x < 0 \<or> y < 0 \<or> x \<ge> grid_w lm \<or> y \<ge> grid_h lm then Some (lm, q)
      else let idx = cell_index lm x y
           in if idx \<ge> length (L_grid lm) then None
              else if v \<le> L_grid lm ! idx then Some (lm, q)
              else Some (lm\<lparr>L_grid := (L_grid lm)[idx := v]\<rparr>, q @ [(x, y, v)]))"

text \<open>
  One node's four \<^verbatim>\<open>step\<close> calls, in the source's order:
  \<^verbatim>\<open>step(1,0); step(-1,0); step(0,1); step(0,-1);\<close>
\<close>

definition step4 :: "LightMap \<Rightarrow> Node list \<Rightarrow> int \<Rightarrow> int \<Rightarrow> u8 \<Rightarrow> (LightMap \<times> Node list) option" where
  "step4 lm q x y nv =
     (case push lm q (x + 1) y nv of None \<Rightarrow> None | Some (lm1, q1) \<Rightarrow>
      (case push lm1 q1 (x - 1) y nv of None \<Rightarrow> None | Some (lm2, q2) \<Rightarrow>
       (case push lm2 q2 x (y + 1) nv of None \<Rightarrow> None | Some (lm3, q3) \<Rightarrow>
         push lm3 q3 x (y - 1) nv)))"

definition decay_of :: "u16 \<Rightarrow> u8" where
  "decay_of t = (if solid t then 18 else 12)"

definition attenuate :: "u8 \<Rightarrow> u8 \<Rightarrow> u8" where
  "attenuate v decay = (if v > decay then v - decay else 0)"

text \<open>
  The potential that decreases with every raise of a cell; it bounds the number of
  raises and so the length of the queue.
\<close>

definition darkness :: "u8 list \<Rightarrow> nat" where
  "darkness xs = sum_list (map (\<lambda>c. 255 - unat c) xs)"

text \<open>
  \<open>visit\<close> is the body of the propagation loop for the node at position \<open>qi\<close> of the
  queue: \<open>None\<close> is an access out of bounds, otherwise the world (reading a tile may
  create its chunk), the light map and the queue after the node.
\<close>

definition visit :: "'f fops \<Rightarrow> World \<Rightarrow> LightMap \<Rightarrow> Node list \<Rightarrow> nat \<Rightarrow> (World \<times> LightMap \<times> Node list) option" where
  "visit F w lm q qi =
     (case q ! qi of (x, y, v) \<Rightarrow>
        if v \<le> 1 then Some (w, lm, q)
        else (case world_get F w (wrap32 (ox lm + x)) (wrap32 (oy lm + y)) of
                None \<Rightarrow> None
              | Some (t, w') \<Rightarrow>
                  (case step4 lm q x y (attenuate v (decay_of t)) of
                     None \<Rightarrow> None
                   | Some (lm', q') \<Rightarrow> Some (w', lm', q'))))"

text \<open>
  The propagation loop \<^verbatim>\<open>for(size_t qi=0; qi<q.size(); qi++)\<close> over the growing queue.
  Its termination is proved below (\<open>propagate\<close> terminates on every input).
\<close>

function propagate :: "'f fops \<Rightarrow> World \<Rightarrow> LightMap \<Rightarrow> Node list \<Rightarrow> nat \<Rightarrow> (LightMap \<times> World) option" where
  "propagate F w lm q qi =
     (if qi < length q
      then (case visit F w lm q qi of
              None \<Rightarrow> None
            | Some (w', lm', q') \<Rightarrow> propagate F w' lm' q' (qi + 1))
      else Some (lm, w))"
  by pat_completeness auto

text \<open>
  Seeding: each light is pushed at its tile. A seed is the light's world tile and its
  intensity.
\<close>

fun seed :: "LightMap \<Rightarrow> Node list \<Rightarrow> (int \<times> int \<times> u8) list \<Rightarrow> (LightMap \<times> Node list) option" where
  "seed lm q [] = Some (lm, q)"
| "seed lm q ((tx, ty, i) # ls) =
     (case push lm q (wrap32 (tx - ox lm)) (wrap32 (ty - oy lm)) i of
        None \<Rightarrow> None
      | Some (lm', q') \<Rightarrow> seed lm' q' ls)"

text \<open>
  \<^verbatim>\<open>build\<close> from the tile bounds \<open>tx0, tx1, ty0, ty1\<close> on: the grid is allocated at the
  ambient value, seeded and propagated.
\<close>

definition build_grid :: "'f fops \<Rightarrow> World \<Rightarrow> LightMap \<Rightarrow> int \<Rightarrow> int \<Rightarrow> int \<Rightarrow> int \<Rightarrow> (int \<times> int \<times> u8) list \<Rightarrow> (LightMap \<times> World) option" where
  "build_grid F world lm tx0 tx1 ty0 ty1 seeds =
     (let lm1 = lm\<lparr>ox := tx0, oy := ty0,
                    grid_w := wrap32 (wrap32 (tx1 - tx0) + 1),
                    grid_h := wrap32 (wrap32 (ty1 - ty0) + 1)\<rparr>
      in if grid_w lm1 \<le> 0 \<or> grid_h lm1 \<le> 0
         then Some (lm1\<lparr>grid_w := 0, grid_h := 0, L_grid := []\<rparr>, world)
         else let lm2 = lm1\<lparr>L_grid := replicate (nat (grid_w lm1) * nat (grid_h lm1)) (ambient lm1)\<rparr>
              in (case seed lm2 [] seeds of
                    None \<Rightarrow> None
                  | Some (lm3, q) \<Rightarrow> propagate F world lm3 q 0))"

text \<open>
  The float part of \<^verbatim>\<open>build\<close>: the visible tile bounds with their margin of 4, and the
  tile of a light.
\<close>

definition tile_of :: "'f fops \<Rightarrow> 'f \<Rightarrow> int \<Rightarrow> int" where
  "tile_of F a tsz = f_to_int F (f_floor F (f_div F a (f_of_int F tsz)))"

definition visible_bounds :: "'f fops \<Rightarrow> 'f Camera2D \<Rightarrow> int \<Rightarrow> int \<times> int \<times> int \<times> int" where
  "visible_bounds F cam tsz =
     (let invz = (if \<not> f_eq F (zoom cam) (f_of_int F 0) then f_div F (f_lit F 1 0) (zoom cam)
                  else f_lit F 1 0);
          left = f_sub F (vx (cam_pos cam)) (f_mul F (f_mul F (vx (viewport cam)) (f_lit F 5 1)) invz);
          right = f_add F (vx (cam_pos cam)) (f_mul F (f_mul F (vx (viewport cam)) (f_lit F 5 1)) invz);
          top = f_sub F (vy (cam_pos cam)) (f_mul F (f_mul F (vy (viewport cam)) (f_lit F 5 1)) invz);
          bottom = f_add F (vy (cam_pos cam)) (f_mul F (f_mul F (vy (viewport cam)) (f_lit F 5 1)) invz)
      in (wrap32 (tile_of F left tsz - 4), wrap32 (tile_of F right tsz + 4),
          wrap32 (tile_of F top tsz - 4), wrap32 (tile_of F bottom tsz + 4)))"

definition light_seed :: "'f fops \<Rightarrow> int \<Rightarrow> 'f LightSource \<Rightarrow> int \<times> int \<times> u8" where
  "light_seed F tsz ls =
     (tile_of F (vx (pos_px ls)) tsz, tile_of F (vy (pos_px ls)) tsz, intensity ls)"

definition build :: "'f fops \<Rightarrow> World \<Rightarrow> LightMap \<Rightarrow> 'f Camera2D \<Rightarrow> 'f LightSource list \<Rightarrow> (LightMap \<times> World) option" where
  "build F world lm cam lights =
     (case visible_bounds F cam (tile_px world) of
        (tx0, tx1, ty0, ty1) \<Rightarrow>
          build_grid F world lm tx0 tx1 ty0 ty1 (map (light_seed F (tile_px world)) lights))"

definition sample_tile :: "LightMap \<Rightarrow> int \<Rightarrow> int \<Rightarrow> u8 option" where
  "sample_tile lm world_tx world_ty =
     (let x = wrap32 (world_tx - ox lm);
          y = wrap32 (world_ty - oy lm)
      in if x < 0 \<or> y < 0 \<or> x \<ge> grid_w lm \<or> y \<ge> grid_h lm then Some (ambient lm)
         else if cell_index lm x y < length (L_grid lm) then Some (L_grid lm ! cell_index lm x y)
         else None)"

text \<open>The light map before the first \<^verbatim>\<open>build\<close>.\<close>

definition initial_lightmap :: LightMap where
  "initial_lightmap = \<lparr>grid_w = 0, grid_h = 0, ox = 0, oy = 0, L_grid = [], ambient = 40\<rparr>"

text \<open>The vector \<^verbatim>\<open>L\<close> holds one cell for each tile of the grid.\<close>

definition lm_ok :: "LightMap \<Rightarrow> bool" where
  "lm_ok lm \<longleftrightarrow> length (L_grid lm) = nat (grid_w lm) * nat (grid_h lm)"

section \<open>Tile physics\<close>

text \<open>
  The components the physics reads and the part of \<^verbatim>\<open>struct ECS\<close> it works on:
  \<^verbatim>\<open>struct CTransform { v2 pos; f32 rot; v2 scale; }\<close>, \<^verbatim>\<open>struct CVel { v2 v; }\<close> (the
  field \<^verbatim>\<open>v\<close> is \<open>velocity\<close> here) and \<^verbatim>\<open>struct CCollider { v2 half; bool on_ground; }\<close>.
\<close>

record 'f CTransform =
  pos :: "'f v2"
  rot :: 'f
  scale_xy :: "'f v2"

record 'f CVel =
  velocity :: "'f v2"

record 'f CCollider =
  half :: "'f v2"
  on_ground :: bool

record 'f ECS =
  reg :: Registry
  tr :: "'f CTransform Pool"
  vel :: "'f CVel Pool"
  col :: "'f CCollider Pool"

definition floor_div_tile :: "'f fops \<Rightarrow> 'f \<Rightarrow> int \<Rightarrow> int" where
  "floor_div_tile F a tp = f_to_int F (f_floor F (f_div F a (f_of_int F tp)))"

text \<open>\<^verbatim>\<open>a >= b\<close> is written \<open>f_le F b a\<close>, \<^verbatim>\<open>a > 0\<close> is \<open>f_lt F (f_of_int F 0) a\<close>.\<close>

definition aabb_overlaps_tile :: "'f fops \<Rightarrow> 'f v2 \<Rightarrow> 'f v2 \<Rightarrow> int \<Rightarrow> int \<Rightarrow> int \<Rightarrow> bool" where
  "aabb_overlaps_tile F p hf tp tx ty =
     (let x0 = f_sub F (vx p) (vx hf); x1 = f_add F (vx p) (vx hf);
          y0 = f_sub F (vy p) (vy hf); y1 = f_add F (vy p) (vy hf);
          t0 = f_of_int F (wrap32 (tx * tp));
          t1 = f_add F t0 (f_of_int F tp);
          s0 = f_of_int F (wrap32 (ty * tp));
          s1 = f_add F s0 (f_of_int F tp)
      in \<not> (f_le F x1 t0 \<or> f_le F t1 x0 \<or> f_le F y1 s0 \<or> f_le F s1 y0))"

text \<open>
  The state of a tile scan: the entity's position, velocity and ground flag (the
  objects behind the pointers \<^verbatim>\<open>t\<close>, \<^verbatim>\<open>v\<close>, \<^verbatim>\<open>c\<close>) and the world, whose chunk table grows
  when a tile is read.
\<close>

record 'f scan =
  s_pos :: "'f v2"
  s_vel :: "'f v2"
  s_ground :: bool
  s_world :: World

text \<open>
  The tiles of the two nested loops, rows from \<open>min_ty\<close> to \<open>max_ty\<close> and, within a
  row, columns from \<open>min_tx\<close> to \<open>max_tx\<close>. The loop counters are taken as integers
  that do not overflow.
\<close>

definition tile_range :: "int \<Rightarrow> int \<Rightarrow> int \<Rightarrow> int \<Rightarrow> (int \<times> int) list" where
  "tile_range min_tx max_tx min_ty max_ty =
     concat (map (\<lambda>ty. map (\<lambda>tx. (tx, ty)) [min_tx..max_tx]) [min_ty..max_ty])"

fun scan_tiles :: "('s \<Rightarrow> 't \<Rightarrow> 's option) \<Rightarrow> 's \<Rightarrow> 't list \<Rightarrow> 's option" where
  "scan_tiles f st [] = Some st"
| "scan_tiles f st (t # ts) =
     (case f st t of None \<Rightarrow> None | Some st' \<Rightarrow> scan_tiles f st' ts)"

text \<open>The loop body of \<^verbatim>\<open>resolve_axis_x\<close>.\<close>

definition x_step :: "'f fops \<Rightarrow> 'f v2 \<Rightarrow> int \<Rightarrow> 'f scan \<Rightarrow> int \<times> int \<Rightarrow> 'f scan option" where
  "x_step F hf tp st t =
     (case t of (tx, ty) \<Rightarrow>
       (case world_get F (s_world st) tx ty of
          None \<Rightarrow> None
        | Some (tile, w') \<Rightarrow>
            (let st1 = st\<lparr>s_world := w'\<rparr>
             in if \<not> solid tile then Some st1
                else if \<not> aabb_overlaps_tile F (s_pos st) hf tp tx ty then Some st1
                else let tile_left = f_of_int F (wrap32 (tx * tp));
                         tile_right = f_add F tile_left (f_of_int F tp);
                         p = (if f_lt F (f_of_int F 0) (vx (s_vel st))
                              then (s_pos st)\<lparr>vx := f_sub F tile_left (vx hf)\<rparr>
                              else if f_lt F (vx (s_vel st)) (f_of_int F 0)
                              then (s_pos st)\<lparr>vx := f_add F tile_right (vx hf)\<rparr>
                              else s_pos st)
                     in Some (st1\<lparr>s_pos := p, s_vel := (s_vel st)\<lparr>vx := f_of_int F 0\<rparr>\<rparr>))))"

text \<open>The loop body of \<^verbatim>\<open>resolve_axis_y\<close>.\<close>

definition y_step :: "'f fops \<Rightarrow> 'f v2 \<Rightarrow> int \<Rightarrow> 'f scan \<Rightarrow> int \<times> int \<Rightarrow> 'f scan option" where
  "y_step F hf tp st t =
     (case t of (tx, ty) \<Rightarrow>
       (case world_get F (s_world st) tx ty of
          None \<Rightarrow> None
        | Some (tile, w') \<Rightarrow>
            (let st1 = st\<lparr>s_world := w'\<rparr>
             in if \<not> solid tile then Some st1
                else if \<not> aabb_overlaps_tile F (s_pos st) hf tp tx ty then Some st1
                else let tile_top = f_of_int F (wrap32 (ty * tp));
                         tile_bottom = f_add F tile_top (f_of_int F tp);
                         st2 = (if f_lt F (f_of_int F 0) (vy (s_vel st))
                                then st1\<lparr>s_pos := (s_pos st)\<lparr>vy := f_sub F tile_top (vy hf)\<rparr>,
                                         s_ground := True\<rparr>
                                else if f_lt F (vy (s_vel st)) (f_of_int F 0)
                                then st1\<lparr>s_pos := (s_pos st)\<lparr>vy := f_add F tile_bottom (vy hf)\<rparr>\<rparr>
                                else st1)
                     in Some (st2\<lparr>s_vel := (s_vel st)\<lparr>vy := f_of_int F 0\<rparr>\<rparr>))))"

text \<open>
  The tiles a resolution scans, computed once from the advanced position:
  \<^verbatim>\<open>min_tx = floor_div_tile(pos.x - half.x, tp) - 1\<close> and so on.
\<close>

definition scan_range :: "'f fops \<Rightarrow> 'f v2 \<Rightarrow> 'f v2 \<Rightarrow> int \<Rightarrow> (int \<times> int) list" where
  "scan_range F p hf tp =
     tile_range (wrap32 (floor_div_tile F (f_sub F (vx p) (vx hf)) tp - 1))
                (wrap32 (floor_div_tile F (f_add F (vx p) (vx hf)) tp + 1))
                (wrap32 (floor_div_tile F (f_sub F (vy p) (vy hf)) tp - 1))
                (wrap32 (floor_div_tile F (f_add F (vy p) (vy hf)) tp + 1))"

text \<open>
  The scan state at the start of the tile loop of \<^verbatim>\<open>resolve_axis_x\<close> and of
  \<^verbatim>\<open>resolve_axis_y\<close>: the position advanced along the axis; for \<open>y\<close>, the ground flag
  reset.
\<close>

definition x_start :: "'f fops \<Rightarrow> 'f CTransform \<Rightarrow> 'f CVel \<Rightarrow> 'f CCollider \<Rightarrow> World \<Rightarrow> 'f \<Rightarrow> 'f scan" where
  "x_start F t v c world dt =
     \<lparr>s_pos = (pos t)\<lparr>vx := f_add F (vx (pos t)) (f_mul F (vx (velocity v)) dt)\<rparr>,
      s_vel = velocity v, s_ground = on_ground c, s_world = world\<rparr>"

definition y_start :: "'f fops \<Rightarrow> 'f CTransform \<Rightarrow> 'f CVel \<Rightarrow> 'f CCollider \<Rightarrow> World \<Rightarrow> 'f \<Rightarrow> 'f scan" where
  "y_start F t v c world dt =
     \<lparr>s_pos = (pos t)\<lparr>vy := f_add F (vy (pos t)) (f_mul F (vy (velocity v)) dt)\<rparr>,
      s_vel = velocity v, s_ground = False, s_world = world\<rparr>"

text \<open>Writing the scan's result back through the three pointers.\<close>

definition store_scan :: "'f ECS \<Rightarrow> nat \<Rightarrow> nat \<Rightarrow> nat \<Rightarrow> 'f scan \<Rightarrow> 'f ECS" where
  "store_scan ecs ti vi ci st =
     ecs\<lparr>tr := (tr ecs)\<lparr>dense_val := (dense_val (tr ecs))[ti := (dense_val (tr ecs) ! ti)\<lparr>pos := s_pos st\<rparr>]\<rparr>,
         vel := (vel ecs)\<lparr>dense_val := (dense_val (vel ecs))[vi := (dense_val (vel ecs) ! vi)\<lparr>velocity := s_vel st\<rparr>]\<rparr>,
         col := (col ecs)\<lparr>dense_val := (dense_val (col ecs))[ci := (dense_val (col ecs) ! ci)\<lparr>on_ground := s_ground st\<rparr>]\<rparr>\<rparr>"

definition resolve_axis_x :: "'f fops \<Rightarrow> 'f ECS \<Rightarrow> World \<Rightarrow> Entity \<Rightarrow> 'f \<Rightarrow> ('f ECS \<times> World) option" where
  "resolve_axis_x F ecs world e dt =
     (case get_pos (tr ecs) e of None \<Rightarrow> Some (ecs, world) | Some ti \<Rightarrow>
      (case get_pos (vel ecs) e of None \<Rightarrow> Some (ecs, world) | Some vi \<Rightarrow>
       (case get_pos (col ecs) e of None \<Rightarrow> Some (ecs, world) | Some ci \<Rightarrow>
          (let c = dense_val (col ecs) ! ci;
               st0 = x_start F (dense_val (tr ecs) ! ti) (dense_val (vel ecs) ! vi) c world dt
           in case scan_tiles (x_step F (half c) (tile_px world)) st0
                     (scan_range F (s_pos st0) (half c) (tile_px world)) of
                None \<Rightarrow> None
              | Some st \<Rightarrow> Some (store_scan ecs ti vi ci st, s_world st)))))"

definition resolve_axis_y :: "'f fops \<Rightarrow> 'f ECS \<Rightarrow> World \<Rightarrow> Entity \<Rightarrow> 'f \<Rightarrow> ('f ECS \<times> World) option" where
  "resolve_axis_y F ecs world e dt =
     (case get_pos (tr ecs) e of None \<Rightarrow> Some (ecs, world) | Some ti \<Rightarrow>
      (case get_pos (vel ecs) e of None \<Rightarrow> Some (ecs, world) | Some vi \<Rightarrow>
       (case get_pos (col ecs) e of None \<Rightarrow> Some (ecs, world) | Some ci \<Rightarrow>
          (let c = dense_val (col ecs) ! ci;
               st0 = y_start F (dense_val (tr ecs) ! ti) (dense_val (vel ecs) ! vi) c world dt
           in case scan_tiles (y_step F (half c) (tile_px world)) st0
                     (scan_range F (s_pos st0) (half c) (tile_px world)) of
                None \<Rightarrow> None
              | Some st \<Rightarrow> Some (store_scan ecs ti vi ci st, s_world st)))))"

text \<open>
  \<^verbatim>\<open>sys_physics\<close>: gravity for every row of the velocity pool, then the two resolutions
  for every row of the collider pool whose entity has a transform and a velocity.
  \<^verbatim>\<open>std::min(v.y, 3000.0f)\<close> is \<^verbatim>\<open>(3000.0f < v.y) ? 3000.0f : v.y\<close>.
\<close>

definition gravity_row :: "'f fops \<Rightarrow> 'f \<Rightarrow> 'f CVel \<Rightarrow> 'f CVel" where
  "gravity_row F dt v =
     (let vy1 = f_add F (vy (velocity v)) (f_mul F (f_lit F 1200 0) dt);
          vy2 = (if f_lt F (f_lit F 3000 0) vy1 then f_lit F 3000 0 else vy1)
      in v\<lparr>velocity := (velocity v)\<lparr>vy := vy2\<rparr>\<rparr>)"

fun gravity_loop :: "'f fops \<Rightarrow> 'f \<Rightarrow> 'f ECS \<Rightarrow> nat list \<Rightarrow> 'f ECS option" where
  "gravity_loop F dt ecs [] = Some ecs"
| "gravity_loop F dt ecs (i # is) =
     (case entity_at (vel ecs) i (reg ecs) of
        None \<Rightarrow> None
      | Some e \<Rightarrow>
          if \<not> alive (reg ecs) e then gravity_loop F dt ecs is
          else (case get_pos (vel ecs) e of
                  None \<Rightarrow> gravity_loop F dt ecs is
                | Some vi \<Rightarrow>
                    gravity_loop F dt
                      (ecs\<lparr>vel := (vel ecs)\<lparr>dense_val :=
                               (dense_val (vel ecs))[vi := gravity_row F dt (dense_val (vel ecs) ! vi)]\<rparr>\<rparr>)
                      is))"

fun resolve_loop :: "'f fops \<Rightarrow> 'f \<Rightarrow> 'f ECS \<Rightarrow> World \<Rightarrow> nat list \<Rightarrow> ('f ECS \<times> World) option" where
  "resolve_loop F dt ecs world [] = Some (ecs, world)"
| "resolve_loop F dt ecs world (i # is) =
     (case entity_at (col ecs) i (reg ecs) of
        None \<Rightarrow> None
      | Some e \<Rightarrow>
          if \<not> alive (reg ecs) e then resolve_loop F dt ecs world is
          else if get_pos (tr ecs) e = None \<or> get_pos (vel ecs) e = None
          then resolve_loop F dt ecs world is
          else (case resolve_axis_x F ecs world e dt of
                  None \<Rightarrow> None
                | Some (ecs1, w1) \<Rightarrow>
                    (case resolve_axis_y F ecs1 w1 e dt of
                       None \<Rightarrow> None
                     | Some (ecs2, w2) \<Rightarrow> resolve_loop F dt ecs2 w2 is)))"

definition sys_physics :: "'f fops \<Rightarrow> 'f ECS \<Rightarrow> World \<Rightarrow> 'f \<Rightarrow> ('f ECS \<times> World) option" where
  "sys_physics F ecs world dt =
     (case gravity_loop F dt ecs [0..<size_pool (vel ecs)] of
        None \<Rightarrow> None
      | Some ecs1 \<Rightarrow> resolve_loop F dt ecs1 world [0..<size_pool (col ecs1)])"

text \<open>An entity that lacks one of the three components.\<close>

definition malformed :: "'f ECS \<Rightarrow> Entity \<Rightarrow> bool" where
  "malformed ecs e \<longleftrightarrow>
     get (tr ecs) e = None \<or> get (vel ecs) e = None \<or> get (col ecs) e = None"

text \<open>
  The entity, at the scan state \<open>st\<close>, overlaps the solid tile \<open>t\<close> while it moves
  down: the case in which the \<open>y\<close> resolution pushes it out upwards.
\<close>

definition pushed_down :: "'f fops \<Rightarrow> 'f v2 \<Rightarrow> int \<Rightarrow> 'f scan \<Rightarrow> int \<times> int \<Rightarrow> bool" where
  "pushed_down F hf tp st t =
     (case world_get F (s_world st) (fst t) (snd t) of
        None \<Rightarrow> False
      | Some (tile, w') \<Rightarrow>
          solid tile \<and> aabb_overlaps_tile F (s_pos st) hf tp (fst t) (snd t) \<and>
          f_lt F (f_of_int F 0) (vy (s_vel st)))"

text \<open>
  Two ECS states have the same frame when they differ at most in the component values.
\<close>

definition same_keys :: "'a Pool \<Rightarrow> 'a Pool \<Rightarrow> bool" where
  "same_keys p p' \<longleftrightarrow> dense_idx p' = dense_idx p \<and> sparse p' = sparse p \<and>
                      length (dense_val p') = length (dense_val p)"

definition same_frame :: "'f ECS \<Rightarrow> 'f ECS \<Rightarrow> bool" where
  "same_frame ecs ecs' \<longleftrightarrow> reg ecs' = reg ecs \<and> same_keys (tr ecs) (tr ecs') \<and>
                           same_keys (vel ecs) (vel ecs') \<and> same_keys (col ecs) (col ecs')"

text \<open>
  A concrete scene for evaluating the physics: a world whose chunk \<open>(0, 0)\<close> is empty but
  for the solid tile \<open>(1, 2)\<close>, and an ECS with entity 0 (transform, velocity,
  collider) above that tile and entity 1, which has a velocity only. \<open>falling_ecs_g\<close> is
  the ECS after the gravity pass of one tick of 1/64 s, \<open>falling_ecs_after\<close> after the
  whole tick; \<open>landed_ecs\<close> is the ECS after a \<open>y\<close> resolution over 1/2 s.
\<close>

definition floor_world :: World where
  "floor_world = \<lparr>tile_px = 32,
     chunk_map = [key 0 0 \<mapsto> \<lparr>cx = 0, cy = 0, tiles = (replicate 1024 0)[65 := 1], used = True\<rparr>]\<rparr>"

definition falling_ecs :: "rat option ECS" where
  "falling_ecs =
     \<lparr>reg = \<lparr>gen = [1, 1], free_list = []\<rparr>,
      tr = \<lparr>dense_idx = [0],
            dense_val = [\<lparr>pos = \<lparr>vx = Some 48, vy = Some 40\<rparr>, rot = Some 0,
                          scale_xy = \<lparr>vx = Some 1, vy = Some 1\<rparr>\<rparr>],
            sparse = [0]\<rparr>,
      vel = \<lparr>dense_idx = [0, 1],
             dense_val = [\<lparr>velocity = \<lparr>vx = Some 0, vy = Some 64\<rparr>\<rparr>,
                          \<lparr>velocity = \<lparr>vx = Some 0, vy = Some 0\<rparr>\<rparr>],
             sparse = [0, 1]\<rparr>,
      col = \<lparr>dense_idx = [0],
             dense_val = [\<lparr>half = \<lparr>vx = Some 8, vy = Some 8\<rparr>, on_ground = False\<rparr>],
             sparse = [0]\<rparr>\<rparr>"

definition landed_ecs :: "rat option ECS" where
  "landed_ecs =
     \<lparr>reg = \<lparr>gen = [1, 1], free_list = []\<rparr>,
      tr = \<lparr>dense_idx = [0],
            dense_val = [\<lparr>pos = \<lparr>vx = Some 48, vy = Some 56\<rparr>, rot = Some 0,
                          scale_xy = \<lparr>vx = Some 1, vy = Some 1\<rparr>\<rparr>],
            sparse = [0]\<rparr>,
      vel = \<lparr>dense_idx = [0, 1],
             dense_val = [\<lparr>velocity = \<lparr>vx = Some 0, vy = Some 0\<rparr>\<rparr>,
                          \<lparr>velocity = \<lparr>vx = Some 0, vy = Some 0\<rparr>\<rparr>],
             sparse = [0, 1]\<rparr>,
      col = \<lparr>dense_idx = [0],
             dense_val = [\<lparr>half = \<lparr>vx = Some 8, vy = Some 8\<rparr>, on_ground = True\<rparr>],
             sparse = [0]\<rparr>\<rparr>"

definition falling_ecs_after :: "rat option ECS" where
  "falling_ecs_after =
     \<lparr>reg = \<lparr>gen = [1, 1], free_list = []\<rparr>,
      tr = \<lparr>dense_idx = [0],
            dense_val = [\<lparr>pos = \<lparr>vx = Some 48, vy = Some (10571 / 256)\<rparr>, rot = Some 0,
                          scale_xy = \<lparr>vx = Some 1, vy = Some 1\<rparr>\<rparr>],
            sparse = [0]\<rparr>,
      vel = \<lparr>dense_idx = [0, 1],
             dense_val = [\<lparr>velocity = \<lparr>vx = Some 0, vy = Some (331 / 4)\<rparr>\<rparr>,
                          \<lparr>velocity = \<lparr>vx = Some 0, vy = Some (75 / 4)\<rparr>\<rparr>],
             sparse = [0, 1]\<rparr>,
      col = \<lparr>dense_idx = [0],
             dense_val = [\<lparr>half = \<lparr>vx = Some 8, vy = Some 8\<rparr>, on_ground = False\<rparr>],
             sparse = [0]\<rparr>\<rparr>"

definition falling_ecs_g :: "rat option ECS" where
  "falling_ecs_g = falling_ecs\<lparr>vel := \<lparr>dense_idx = [0, 1],
             dense_val = [\<lparr>velocity = \<lparr>vx = Some 0, vy = Some (331 / 4)\<rparr>\<rparr>,
                          \<lparr>velocity = \<lparr>vx = Some 0, vy = Some (75 / 4)\<rparr>\<rparr>],
             sparse = [0, 1]\<rparr>\<rparr>"

section \<open>Light map states\<close>

text \<open>
  Two light maps have the same grid when they agree on everything but the cells.
\<close>

definition same_grid :: "LightMap \<Rightarrow> LightMap \<Rightarrow> bool" where
  "same_grid lm lm' \<longleftrightarrow> grid_w lm' = grid_w lm \<and> grid_h lm' = grid_h lm \<and>
                         ox lm' = ox lm \<and> oy lm' = oy lm \<and> ambient lm' = ambient lm"

text \<open>
  The states of a light map: it starts as \<open>initial_lightmap\<close>; the program assigns the
  public field \<^verbatim>\<open>ambient\<close> and calls \<^verbatim>\<open>build\<close>, each time with the world, the camera and
  the lights of the moment.
\<close>

datatype 'f lm_op = Set_ambient u8 | Build World "'f Camera2D" "'f LightSource list"

fun lm_step :: "'f fops \<Rightarrow> 'f lm_op \<Rightarrow> LightMap \<Rightarrow> LightMap option" where
  "lm_step F (Set_ambient a) lm = Some (lm\<lparr>ambient := a\<rparr>)"
| "lm_step F (Build world cam lights) lm = map_option fst (build F world lm cam lights)"

fun lm_run :: "'f fops \<Rightarrow> 'f lm_op list \<Rightarrow> LightMap \<Rightarrow> LightMap option" where
  "lm_run F [] lm = Some lm"
| "lm_run F (x # xs) lm =
     (case lm_step F x lm of None \<Rightarrow> None | Some lm' \<Rightarrow> lm_run F xs lm')"

text \<open>
  A small scene for evaluating \<^verbatim>\<open>build\<close>: over \<open>floor_world\<close>, a camera whose visible
  tiles with the margin of 4 are the columns \<open>-3..7\<close> and the rows \<open>-3..5\<close>, and a light
  of intensity 50 in tile \<open>(3, 1)\<close>. With the ambient value 40 the light raises its own
  cell only: \<open>50 - 12\<close> is below the ambient value.
\<close>

definition peek_cam :: "rat option Camera2D" where
  "peek_cam = \<lparr>cam_pos = \<lparr>vx = Some 64, vy = Some 32\<rparr>, zoom = Some 1, cam_rot = Some 0,
                viewport = \<lparr>vx = Some 64, vy = Some 0\<rparr>\<rparr>"

definition candle :: "rat option LightSource" where
  "candle = \<lparr>pos_px = \<lparr>vx = Some 96, vy = Some 32\<rparr>, radius_tiles = 1, intensity = 50\<rparr>"

definition candle_map :: LightMap where
  "candle_map = \<lparr>grid_w = 11, grid_h = 9, ox = - 3, oy = - 3,
                  L_grid = (replicate 99 40)[50 := 50], ambient = 40\<rparr>"

section \<open>Skipped entities\<close>

text \<open>
  The owners of a pool's rows are registered when each of them names a slot of the
  registry (\<^verbatim>\<open>entity_at\<close> reads \<^verbatim>\<open>gen[idx]\<close> unchecked). Row \<open>i\<close> of a pool is a row of
  entity \<open>e\<close> when its owner is \<open>e\<close>'s slot index.
\<close>

definition registered :: "Registry \<Rightarrow> 'a Pool \<Rightarrow> bool" where
  "registered r p = list_all (\<lambda>i. unat i < length (gen r)) (dense_idx p)"

definition row_of :: "'a Pool \<Rightarrow> Entity \<Rightarrow> nat \<Rightarrow> bool" where
  "row_of p e i \<longleftrightarrow> i < length (dense_idx p) \<and> dense_idx p ! i = ent_idx e"

text \<open>
  A scene with two malformed entities: entity 0 has a transform and a collider but no
  velocity, entity 1 a velocity only. \<open>partial_ecs_after\<close> is the ECS after one tick of
  1/64 s.
\<close>

definition partial_ecs :: "rat option ECS" where
  "partial_ecs =
     \<lparr>reg = \<lparr>gen = [1, 1], free_list = []\<rparr>,
      tr = \<lparr>dense_idx = [0],
            dense_val = [\<lparr>pos = \<lparr>vx = Some 48, vy = Some 40\<rparr>, rot = Some 0,
                          scale_xy = \<lparr>vx = Some 1, vy = Some 1\<rparr>\<rparr>],
            sparse = [0]\<rparr>,
      vel = \<lparr>dense_idx = [1],
             dense_val = [\<lparr>velocity = \<lparr>vx = Some 0, vy = Some 0\<rparr>\<rparr>],
             sparse = [- 1, 0]\<rparr>,
      col = \<lparr>dense_idx = [0],
             dense_val = [\<lparr>half = \<lparr>vx = Some 8, vy = Some 8\<rparr>, on_ground = False\<rparr>],
             sparse = [0]\<rparr>\<rparr>"

definition partial_ecs_after :: "rat option ECS" where
  "partial_ecs_after =
     partial_ecs\<lparr>vel := \<lparr>dense_idx = [1],
             dense_val = [\<lparr>velocity = \<lparr>vx = Some 0, vy = Some (75 / 4)\<rparr>\<rparr>],
             sparse = [- 1, 0]\<rparr>\<rparr>"

section \<open>Light propagation: invariants\<close>

text \<open>
  The notions in which the result of the propagation loop is described: a position of
  the grid, the value of its cell as a number, and its four neighbours in the order of
  the \<^verbatim>\<open>step\<close> calls.
\<close>

definition in_grid :: "LightMap \<Rightarrow> int \<Rightarrow> int \<Rightarrow> bool" where
  "in_grid lm x y \<longleftrightarrow> 0 \<le> x \<and> x < grid_w lm \<and> 0 \<le> y \<and> y < grid_h lm"











section \<open>The floor scene\<close>










section \<open>Handle lemmas\<close>

lemma ent_idx_make_ent [simp]: "ent_idx (make_ent i g) = i"
proof -
  have m: "(0xFFFF :: u32) = mask 16"
    by (simp add: mask_eq_exp_minus_1)
  have "ucast ((push_bit 16 (ucast g :: u32) OR ucast i) AND mask 16) = i"
    by (rule bit_word_eqI) (auto simp: bit_simps)
  then show ?thesis by (simp add: ent_idx_def make_ent_def m)
qed

lemma ent_gen_make_ent [simp]: "ent_gen (make_ent i g) = g"
proof -
  have "(ucast (drop_bit 16 (push_bit 16 (ucast g :: u32) OR ucast i)) :: u16) = g"
    by (rule bit_word_eqI) (auto simp: bit_simps dest: bit_imp_le_length)
  then show ?thesis by (simp add: ent_gen_def make_ent_def)
qed

section \<open>Registry lemmas\<close>

lemma alive_make_ent:
  "alive r (make_ent i g) \<longleftrightarrow> unat i < length (gen r) \<and> gen r ! unat i = g"
  by (auto simp: alive_def)

lemma create_ok: "reg_ok r \<Longrightarrow> \<exists>e r'. create r = Some (e, r') \<and> reg_ok r'"
proof (cases "free_list r = []")
  case True
  assume "reg_ok r"
  have "unat (of_nat (length (gen r)) :: u16) \<le> length (gen r)"
    by (simp add: unat_of_nat)
  with True show ?thesis
    by (simp add: create_def reg_ok_def)
next
  case False
  assume ok: "reg_ok r"
  from False have "last (free_list r) \<in> set (free_list r)" by simp
  with ok have "unat (last (free_list r)) < length (gen r)"
    by (simp add: reg_ok_def list_all_iff)
  with False ok show ?thesis
    by (auto simp: create_def reg_ok_def list_all_iff dest: in_set_butlastD)
qed

lemma destroy_ok: "reg_ok r \<Longrightarrow> reg_ok (destroy e r)"
  by (auto simp: destroy_def reg_ok_def list_all_iff Let_def)

lemma reg_step_ok: "reg_ok r \<Longrightarrow> \<exists>r'. reg_step x r = Some r' \<and> reg_ok r'"
  using create_ok[of r] destroy_ok[of r]
  by (cases x) auto

lemma reg_run_ok: "reg_ok r \<Longrightarrow> \<exists>r'. reg_run xs r = Some r' \<and> reg_ok r'"
proof (induction xs arbitrary: r)
  case Nil then show ?case by simp
next
  case (Cons x xs)
  from reg_step_ok[OF Cons.prems, of x] obtain r1 where
    s: "reg_step x r = Some r1" and ok: "reg_ok r1" by blast
  from Cons.IH[OF ok] s show ?case by simp
qed

lemma create_gen:
  assumes "create r = Some (e, r')" and "i < length (gen r)"
  shows "length (gen r) \<le> length (gen r') \<and> gen r' ! i = gen r ! i"
  using assms by (auto simp: create_def nth_append split: if_splits)

lemma destroy_gen:
  assumes "unat s < length (gen r)"
  shows "length (gen (destroy e r)) = length (gen r) \<and>
         (gen (destroy e r) ! unat s = gen r ! unat s \<or>
          ent_idx e = s \<and> gen (destroy e r) ! unat s = gen r ! unat s + 1)"
proof (cases "ent_idx e = s")
  case True
  with assms show ?thesis by (auto simp: destroy_def Let_def nth_list_update)
next
  case False
  then have "unat (ent_idx e) \<noteq> unat s" by (simp add: word_unat_eq_iff)
  with assms show ?thesis by (auto simp: destroy_def Let_def nth_list_update)
qed

lemma reg_step_gen:
  assumes "reg_step x r = Some r'" and "unat s < length (gen r)"
  shows "length (gen r) \<le> length (gen r') \<and>
         (\<exists>k \<le> (if destroys_slot s x then 1 else 0 :: nat).
            gen r' ! unat s = gen r ! unat s + of_nat k)"
proof (cases x)
  case Create
  with assms(1) obtain e where "create r = Some (e, r')" by auto
  from create_gen[OF this assms(2)] Create show ?thesis by simp
next
  case (Destroy e)
  with assms(1) have r': "r' = destroy e r" by simp
  from destroy_gen[OF assms(2), of e] have len: "length (gen r') = length (gen r)"
    and alt: "gen r' ! unat s = gen r ! unat s \<or>
              ent_idx e = s \<and> gen r' ! unat s = gen r ! unat s + 1" by (auto simp: r')
  from alt have "\<exists>k \<le> (if ent_idx e = s then 1 else 0 :: nat).
                   gen r' ! unat s = gen r ! unat s + of_nat k"
  proof
    assume "gen r' ! unat s = gen r ! unat s"
    then have "gen r' ! unat s = gen r ! unat s + of_nat 0" by simp
    then show ?thesis by blast
  next
    assume a: "ent_idx e = s \<and> gen r' ! unat s = gen r ! unat s + 1"
    then have "gen r' ! unat s = gen r ! unat s + of_nat 1" by simp
    moreover have "(1 :: nat) \<le> (if ent_idx e = s then 1 else 0)" using a by simp
    ultimately show ?thesis by blast
  qed
  then show ?thesis using Destroy len by simp
qed

lemma reg_run_gen:
  assumes "reg_run xs r = Some r'" and "unat s < length (gen r)"
  shows "unat s < length (gen r') \<and>
         (\<exists>k \<le> length (filter (destroys_slot s) xs). gen r' ! unat s = gen r ! unat s + of_nat k)"
  using assms
proof (induction xs arbitrary: r)
  case Nil then show ?case by simp
next
  case (Cons x xs)
  from Cons.prems(1) obtain r1 where st: "reg_step x r = Some r1" and t: "reg_run xs r1 = Some r'"
    by (auto split: option.splits)
  from reg_step_gen[OF st Cons.prems(2)] obtain k1 where
    len: "unat s < length (gen r1)" and k1: "k1 \<le> (if destroys_slot s x then 1 else 0)"
    and g1: "gen r1 ! unat s = gen r ! unat s + of_nat k1" using Cons.prems(2) by auto
  from Cons.IH[OF t len] obtain k2 where
    l2: "unat s < length (gen r')" and k2: "k2 \<le> length (filter (destroys_slot s) xs)"
    and g2: "gen r' ! unat s = gen r1 ! unat s + of_nat k2" by auto
  have "gen r' ! unat s = gen r ! unat s + of_nat (k1 + k2)" by (simp add: g1 g2)
  moreover have "k1 + k2 \<le> length (filter (destroys_slot s) (x # xs))"
    using k1 k2 by (auto split: if_splits)
  ultimately show ?case using l2 by blast
qed

lemma u16_add_neq:
  fixes g :: u16
  assumes "0 < k" and "k < 65536"
  shows "g + of_nat k \<noteq> g"
proof
  assume "g + of_nat k = g"
  then have "(of_nat k :: u16) = 0" by simp
  then have "unat (of_nat k :: u16) = 0" by simp
  with assms show False by (simp add: unat_of_nat)
qed

lemma recycle_run:
  "reg_run (recycle_ops n g) \<lparr>gen = [g], free_list = [0]\<rparr> =
     Some \<lparr>gen = [g + of_nat n], free_list = [0]\<rparr>"
proof (induction n arbitrary: g)
  case 0 then show ?case by simp
next
  case (Suc n)
  have c: "create \<lparr>gen = [g], free_list = [0]\<rparr> = Some (make_ent 0 g, \<lparr>gen = [g], free_list = []\<rparr>)"
    by (simp add: create_def)
  have d: "destroy (make_ent 0 g) \<lparr>gen = [g], free_list = []\<rparr> = \<lparr>gen = [g + 1], free_list = [0]\<rparr>"
    by (simp add: destroy_def)
  show ?case using Suc.IH[of "g + 1"] by (simp add: c d add.assoc)
qed

lemma pool_inv_empty: "pool_inv empty_pool"
  by (simp add: pool_inv_def empty_pool_def)

lemma has_get_pos: "has p e \<longleftrightarrow> get_pos p e \<noteq> None"
  by (auto simp: has_def get_pos_def Let_def)

lemma has_same_idx: "ent_idx e = ent_idx e' \<Longrightarrow> has p e = has p e'"
  by (simp add: has_def)

lemma get_same_idx: "ent_idx e = ent_idx e' \<Longrightarrow> get p e = get p e'"
  by (simp add: get_def get_pos_def)

lemma pool_inv_ensure: "pool_inv p \<Longrightarrow> pool_inv (ensure_sparse n p)"
  by (auto simp: pool_inv_def ensure_sparse_def nth_append)

lemma pool_inv_add:
  assumes "pool_inv p0" shows "pool_inv (add p0 e v)"
proof -
  define p where "p = ensure_sparse (unat (ent_idx e) + 1) p0"
  define i where "i = unat (ent_idx e)"
  have inv: "pool_inv p" unfolding p_def using assms by (rule pool_inv_ensure)
  have len: "i < length (sparse p)" by (simp add: ensure_sparse_def p_def i_def)
  have addeq: "add p0 e v =
     (if sparse p ! i \<ge> 0 \<and> nat (sparse p ! i) < length (dense_idx p) \<and> dense_idx p ! nat (sparse p ! i) = ent_idx e
      then p\<lparr>dense_val := (dense_val p)[nat (sparse p ! i) := v]\<rparr>
      else p\<lparr>sparse := (sparse p)[i := int (length (dense_idx p))],
                dense_idx := dense_idx p @ [ent_idx e],
                dense_val := dense_val p @ [v]\<rparr>)"
    unfolding add_def p_def i_def Let_def ..
  show ?thesis
  proof (cases "sparse p ! i \<ge> 0 \<and> nat (sparse p ! i) < length (dense_idx p) \<and> dense_idx p ! nat (sparse p ! i) = ent_idx e")
    case True
    then show ?thesis unfolding addeq using inv by (simp add: pool_inv_def)
  next
    case False
    from False inv len have neg: "sparse p ! i < 0"
      unfolding pool_inv_def i_def by (metis not_le word_unat_eq_iff)
    have nd: "\<And>d. d < length (dense_idx p) \<Longrightarrow> unat (dense_idx p ! d) \<noteq> i"
      using inv neg unfolding pool_inv_def by (metis of_nat_0_le_iff not_le)
    show ?thesis
      unfolding addeq using inv len nd False
      by (auto simp: pool_inv_def nth_append nth_list_update i_def [symmetric])
  qed
qed

lemma pool_inv_remove:
  assumes inv: "pool_inv p" shows "pool_inv (remove p e)"
proof -
  define i where "i = unat (ent_idx e)"
  define D where "D = dense_idx p"
  define S where "S = sparse p"
  define V where "V = dense_val p"
  define n where "n = length D"
  have rm: "remove p e =
     (if i \<ge> length S then p
      else if S ! i < 0 then p
      else let p1 = (if nat (S ! i) \<noteq> n - 1
                     then p\<lparr>dense_idx := D[nat (S ! i) := D ! (n - 1)],
                            dense_val := V[nat (S ! i) := V ! (n - 1)],
                            sparse := S[unat (D ! (n - 1)) := S ! i]\<rparr>
                     else p)
           in p1\<lparr>dense_idx := butlast (dense_idx p1),
                            dense_val := butlast (dense_val p1),
                            sparse := (sparse p1)[i := -1]\<rparr>)"
    unfolding remove_def i_def D_def S_def V_def n_def Let_def by simp
  show ?thesis
  proof (cases "i < length S \<and> S ! i \<ge> 0")
    case False
    then have "remove p e = p" unfolding rm by auto
    with inv show ?thesis by simp
  next
    case True
    define di where "di = nat (S ! i)"
    from True have iS: "i < length S" and di0: "S ! i = int di" by (auto simp: di_def)
    have lenv: "length V = n"
      and fw: "\<And>d. d < n \<Longrightarrow> unat (D ! d) < length S \<and> S ! unat (D ! d) = int d"
      and bw: "\<And>j. j < length S \<Longrightarrow> S ! j \<ge> 0 \<Longrightarrow> nat (S ! j) < n \<and> unat (D ! nat (S ! j)) = j"
      using inv by (auto simp: pool_inv_def D_def S_def n_def V_def)
    from bw[OF iS] di0 have din: "di < n" and Ddi: "unat (D ! di) = i" by auto
    then have npos: "0 < n" by simp
    show ?thesis
    proof (cases "di = n - 1")
      case True
      have eq: "remove p e = p\<lparr>dense_idx := butlast D, dense_val := butlast V,
                                sparse := S[i := -1]\<rparr>"
        unfolding rm using iS di0 True by (simp add: D_def V_def S_def)
      have a: "unat (D ! d) \<noteq> i" if "d < n - 1" for d
      proof
        assume "unat (D ! d) = i"
        with fw[of d] that have "S ! i = int d" by auto
        with di0 True that show False by simp
      qed
      have b: "nat (S ! j) < n - 1" if "j < length S" "j \<noteq> i" "S ! j \<ge> 0" for j
      proof -
        from bw[OF that(1,3)] have 1: "nat (S ! j) < n" and 2: "unat (D ! nat (S ! j)) = j" by auto
        have "nat (S ! j) \<noteq> di" using 2 Ddi that(2) by auto
        with 1 True show ?thesis by simp
      qed
      have 1: "length (butlast V) = length (butlast D)" using lenv by (simp add: n_def)
      have 2: "unat (butlast D ! d) < length (S[i := -1]) \<and>
               S[i := -1] ! unat (butlast D ! d) = int d" if "d < length (butlast D)" for d
      proof -
        from that have d: "d < n - 1" by (simp add: n_def)
        then have "butlast D ! d = D ! d" by (simp add: nth_butlast n_def)
        with fw[of d] a[OF d] d show ?thesis by (simp add: nth_list_update)
      qed
      have 3: "nat (S[i := -1] ! j) < length (butlast D) \<and>
               unat (butlast D ! nat (S[i := -1] ! j)) = j"
        if "j < length (S[i := -1])" "S[i := -1] ! j \<ge> 0" for j
      proof -
        from that have ji: "j \<noteq> i" and jl: "j < length S" by (auto simp: nth_list_update split: if_splits)
        with that have sj: "S ! j \<ge> 0" by simp
        from b[OF jl ji sj] bw[OF jl sj] ji show ?thesis by (simp add: nth_butlast n_def)
      qed
      show ?thesis unfolding eq pool_inv_def using 1 2 3 by simp
    next
      case False
      define mv where "mv = D ! (n - 1)"
      have eq: "remove p e = p\<lparr>dense_idx := butlast (D[di := mv]),
                                dense_val := butlast (V[di := V ! (n - 1)]),
                                sparse := S[unat mv := int di, i := -1]\<rparr>"
        unfolding rm using iS di0 False by (simp add: mv_def)
      from fw[of "n - 1"] npos have mS: "unat mv < length S" and Sm: "S ! unat mv = int (n - 1)"
        by (auto simp: mv_def)
      have mi: "unat mv \<noteq> i" using Sm di0 False by auto
      have a: "unat (D ! d) \<noteq> i \<and> unat (D ! d) \<noteq> unat mv" if "d < n - 1" "d \<noteq> di" for d
      proof -
        from fw[of d] that have "S ! unat (D ! d) = int d" by auto
        with di0 Sm that show ?thesis by auto
      qed
      have b: "nat (S ! j) < n - 1 \<and> nat (S ! j) \<noteq> di"
        if "j < length S" "j \<noteq> i" "j \<noteq> unat mv" "S ! j \<ge> 0" for j
      proof -
        from bw[OF that(1,4)] have 1: "nat (S ! j) < n" and 2: "unat (D ! nat (S ! j)) = j" by auto
        have "nat (S ! j) \<noteq> di" using 2 Ddi that(2) by auto
        moreover have "nat (S ! j) \<noteq> n - 1" using 2 that(3) by (auto simp: mv_def)
        ultimately show ?thesis using 1 by simp
      qed
      have dn1: "di < n - 1" using din False by simp
      have 1: "length (butlast (V[di := V ! (n - 1)])) = length (butlast (D[di := mv]))"
        using lenv by (simp add: n_def)
      have 2: "unat (butlast (D[di := mv]) ! d) < length (S[unat mv := int di, i := -1]) \<and>
               S[unat mv := int di, i := -1] ! unat (butlast (D[di := mv]) ! d) = int d"
        if "d < length (butlast (D[di := mv]))" for d
      proof -
        from that have d: "d < n - 1" by (simp add: n_def)
        then have bl: "butlast (D[di := mv]) ! d = D[di := mv] ! d" by (simp add: nth_butlast n_def)
        show ?thesis
        proof (cases "d = di")
          case True
          then have "butlast (D[di := mv]) ! d = mv" using bl din by (simp add: n_def)
          then show ?thesis using mS mi True by (simp add: nth_list_update)
        next
          case False
          then have "butlast (D[di := mv]) ! d = D ! d" using bl by simp
          with fw[of d] a[OF d False] d show ?thesis by (simp add: nth_list_update)
        qed
      qed
      have 3: "nat (S[unat mv := int di, i := -1] ! j) < length (butlast (D[di := mv])) \<and>
               unat (butlast (D[di := mv]) ! nat (S[unat mv := int di, i := -1] ! j)) = j"
        if "j < length (S[unat mv := int di, i := -1])" "S[unat mv := int di, i := -1] ! j \<ge> 0" for j
      proof -
        from that have ji: "j \<noteq> i" and jl: "j < length S" by (auto simp: nth_list_update split: if_splits)
        show ?thesis
        proof (cases "j = unat mv")
          case True
          then have "S[unat mv := int di, i := -1] ! j = int di" using mS mi by (simp add: nth_list_update)
          then show ?thesis using dn1 din True by (simp add: nth_butlast n_def)
        next
          case False
          then have e: "S[unat mv := int di, i := -1] ! j = S ! j" using ji by simp
          with that have sj: "S ! j \<ge> 0" by simp
          from b[OF jl ji False sj] bw[OF jl sj] show ?thesis
            unfolding e by (simp add: nth_butlast n_def)
        qed
      qed
      show ?thesis unfolding eq pool_inv_def using 1 2 3 by simp
    qed
  qed
qed

lemma pool_inv_foldl: "pool_inv p \<Longrightarrow> pool_inv (foldl pool_step p ops)"
proof (induction ops arbitrary: p)
  case Nil then show ?case by simp
next
  case (Cons x xs)
  have "pool_inv (pool_step p x)"
    using Cons.prems by (cases x) (simp_all add: pool_inv_add pool_inv_remove)
  then show ?case using Cons.IH by simp
qed

lemma pool_inv_run: "pool_inv (pool_run ops)"
  unfolding pool_run_def by (rule pool_inv_foldl[OF pool_inv_empty])

lemma has_iff_owner:
  assumes "pool_inv p"
  shows "has p e \<longleftrightarrow> ent_idx e \<in> set (dense_idx p)"
proof
  assume "has p e"
  then show "ent_idx e \<in> set (dense_idx p)"
    by (auto simp: has_def Let_def split: if_splits)
       (metis nat_less_iff nth_mem)
next
  assume "ent_idx e \<in> set (dense_idx p)"
  then obtain d where d: "d < length (dense_idx p)" and e: "dense_idx p ! d = ent_idx e"
    by (auto simp: in_set_conv_nth)
  with assms have "unat (ent_idx e) < length (sparse p)" and "sparse p ! unat (ent_idx e) = int d"
    by (auto simp: pool_inv_def)
  with d e show "has p e" by (simp add: has_def)
qed

lemma dense_distinct:
  assumes "pool_inv p" shows "distinct (dense_idx p)"
proof -
  have inj: "a = b" if "a < length (dense_idx p)" "b < length (dense_idx p)"
     "dense_idx p ! a = dense_idx p ! b" for a b
  proof -
    from assms that(1) have "int a = sparse p ! unat (dense_idx p ! a)" by (simp add: pool_inv_def)
    also have "\<dots> = sparse p ! unat (dense_idx p ! b)" by (simp only: that(3))
    also from assms that(2) have "\<dots> = int b" by (simp add: pool_inv_def)
    finally show ?thesis by simp
  qed
  show ?thesis unfolding distinct_conv_nth
  proof (intro allI impI)
    fix a b assume "a < length (dense_idx p)" "b < length (dense_idx p)" "a \<noteq> b"
    then show "dense_idx p ! a \<noteq> dense_idx p ! b" using inj[of a b] by blast
  qed
qed

lemma size_counts_has:
  assumes "pool_inv p"
  shows "size_pool p = card {i. has p (make_ent i g)}"
proof -
  have "{i. has p (make_ent i g)} = set (dense_idx p)"
    using has_iff_owner[OF assms] by auto
  then show ?thesis
    using dense_distinct[OF assms] by (simp add: size_pool_def distinct_card)
qed

lemma remove_not_has: "\<not> has (remove p e) e"
  by (auto simp: has_def remove_def Let_def)

lemma remove_get_None: "get (remove p e) e = None"
  using remove_not_has[of p e] by (simp add: has_get_pos get_def)

lemma create_after_destroy:
  assumes "alive r e" and "create (destroy e r) = Some (e', r')"
  shows "e' = make_ent (ent_idx e) (ent_gen e + 1) \<and> gen r' = (gen r)[unat (ent_idx e) := ent_gen e + 1]"
  using assms by (auto simp: alive_def destroy_def create_def Let_def split: if_splits)

section \<open>Claims about handles and the registry\<close>

text \<open>
  Claim C10. For every pool row \<open>i\<close> whose owner slot exists in the registry,
  \<^verbatim>\<open>entity_at(i, registry)\<close> returns the handle made of the owner index and the registry's
  current generation of that slot, and \<^verbatim>\<open>alive\<close> accepts that handle. This holds whether or
  not the entity that added the row has been destroyed since: the row of a destroyed
  entity yields a live handle.
\<close>

theorem entity_at_always_alive:
  assumes "i < length (dense_idx p)" and "unat (dense_idx p ! i) < length (gen r)"
  shows "entity_at p i r = Some (make_ent (dense_idx p ! i) (gen r ! unat (dense_idx p ! i))) \<and>
         alive r (make_ent (dense_idx p ! i) (gen r ! unat (dense_idx p ! i)))"
  using assms by (simp add: entity_at_def alive_make_ent Let_def)

text \<open>
  The witness: entity \<open>(0, 1)\<close> gets a component and is then destroyed without the
  component being removed. Its handle is dead, and row 0 still yields a live handle.
\<close>

theorem entity_at_always_alive_witness:
  "0 < length (dense_idx (add (empty_pool :: nat Pool) (make_ent 0 1) 7)) \<and>
   unat (dense_idx (add (empty_pool :: nat Pool) (make_ent 0 1) 7) ! 0)
     < length (gen (destroy (make_ent 0 1) \<lparr>gen = [1], free_list = []\<rparr>)) \<and>
   \<not> alive (destroy (make_ent 0 1) \<lparr>gen = [1], free_list = []\<rparr>) (make_ent 0 1) \<and>
   entity_at (add (empty_pool :: nat Pool) (make_ent 0 1) 7) 0
      (destroy (make_ent 0 1) \<lparr>gen = [1], free_list = []\<rparr>) = Some (make_ent 0 2) \<and>
   alive (destroy (make_ent 0 1) \<lparr>gen = [1], free_list = []\<rparr>) (make_ent 0 2)"
  using entity_at_always_alive [of 0 "add (empty_pool :: nat Pool) (make_ent 0 1) 7"
          "destroy (make_ent 0 1) \<lparr>gen = [1], free_list = []\<rparr>"]
  by (simp add: add_def ensure_sparse_def empty_pool_def destroy_def alive_make_ent)

text \<open>
  Claim C4, as stated: once \<^verbatim>\<open>destroy(h)\<close> has succeeded, \<^verbatim>\<open>alive(h)\<close> stays false after
  any further creates and destroys. The generation is a 16-bit counter and
  \<^verbatim>\<open>gen[idx]++\<close> wraps: entity \<open>(0, 1)\<close> is created in an empty registry and destroyed;
  65535 rounds of creating and destroying the entity in slot 0 bring the slot's
  generation back to 1, and the first handle is alive again.
\<close>

theorem destroy_dead_forever_counterexample:
  "create empty_registry = Some (make_ent 0 1, \<lparr>gen = [1], free_list = []\<rparr>) \<and>
   alive \<lparr>gen = [1], free_list = []\<rparr> (make_ent 0 1) \<and>
   reg_run (recycle_ops 65535 2) (destroy (make_ent 0 1) \<lparr>gen = [1], free_list = []\<rparr>)
     = Some \<lparr>gen = [1], free_list = [0]\<rparr> \<and>
   alive \<lparr>gen = [1], free_list = [0]\<rparr> (make_ent 0 1)"
proof -
  have d: "destroy (make_ent 0 1) \<lparr>gen = [1], free_list = []\<rparr> = \<lparr>gen = [2], free_list = [0]\<rparr>"
    by (simp add: destroy_def)
  have "(2 :: u16) + of_nat 65535 = 1" by simp
  with recycle_run[of 65535 2] have
    "reg_run (recycle_ops 65535 2) \<lparr>gen = [2], free_list = [0]\<rparr> = Some \<lparr>gen = [1], free_list = [0]\<rparr>"
    by simp
  then show ?thesis
    by (simp add: d create_def empty_registry_def alive_def)
qed

text \<open>
  Claim C4, amended: after \<^verbatim>\<open>destroy(h)\<close> of a live handle, \<^verbatim>\<open>alive(h)\<close> is false, and it is
  still false after any further sequence of create and destroy operations in which
  fewer than 65535 destroys name a handle of \<open>h\<close>'s slot (the slot's generation has not
  wrapped around); creates and the destroys of other slots do not count, however many
  there are. The sequence always runs to its end on a registry whose free indices name
  existing slots.
\<close>

theorem destroy_dead_until_wrap:
  assumes ok: "reg_ok r" and al: "alive r h"
    and few: "length (filter (destroys_slot (ent_idx h)) ops) < 65535"
  shows "\<not> alive (destroy h r) h \<and>
         (\<exists>r'. reg_run ops (destroy h r) = Some r' \<and> \<not> alive r' h)"
proof -
  let ?i = "unat (ent_idx h)"
  from al have i: "?i < length (gen r)" and g: "gen r ! ?i = ent_gen h"
    by (auto simp: alive_def Let_def split: if_splits)
  have d: "gen (destroy h r) ! ?i = ent_gen h + 1" and dl: "?i < length (gen (destroy h r))"
    using i g by (auto simp: destroy_def Let_def)
  have "ent_gen h + 1 \<noteq> ent_gen h" using u16_add_neq[of 1 "ent_gen h"] by simp
  with d dl have dead0: "\<not> alive (destroy h r) h" by (simp add: alive_def Let_def)
  from reg_run_ok[OF destroy_ok[OF ok], of ops h] obtain r' where
    run: "reg_run ops (destroy h r) = Some r'" by blast
  from reg_run_gen[OF run dl] obtain k where
    l: "?i < length (gen r')" and k: "k \<le> length (filter (destroys_slot (ent_idx h)) ops)"
    and gk: "gen r' ! ?i = gen (destroy h r) ! ?i + of_nat k" by auto
  have "gen r' ! ?i = ent_gen h + of_nat (Suc k)" by (simp add: gk d)
  moreover have "ent_gen h + of_nat (Suc k) \<noteq> ent_gen h"
    using u16_add_neq[of "Suc k" "ent_gen h"] k few by simp
  ultimately have "\<not> alive r' h" using l by (simp add: alive_def Let_def)
  with run dead0 show ?thesis by blast
qed

text \<open>
  The witness: slot 0 is reused once, and a second slot is created and destroyed; of
  the two destroys only the one of slot 0 counts.
\<close>

theorem destroy_dead_until_wrap_witness:
  "reg_ok \<lparr>gen = [1], free_list = []\<rparr> \<and>
   alive \<lparr>gen = [1], free_list = []\<rparr> (make_ent 0 1) \<and>
   length (filter (destroys_slot (ent_idx (make_ent 0 1)))
             [Create, Destroy (make_ent 0 2), Create, Create, Destroy (make_ent 1 1)]) = 1 \<and>
   \<not> alive (destroy (make_ent 0 1) \<lparr>gen = [1], free_list = []\<rparr>) (make_ent 0 1) \<and>
   (\<exists>r'. reg_run [Create, Destroy (make_ent 0 2), Create, Create, Destroy (make_ent 1 1)]
            (destroy (make_ent 0 1) \<lparr>gen = [1], free_list = []\<rparr>) = Some r' \<and>
         \<not> alive r' (make_ent 0 1))"
  using destroy_dead_until_wrap [of "\<lparr>gen = [1], free_list = []\<rparr>" "make_ent 0 1"
          "[Create, Destroy (make_ent 0 2), Create, Create, Destroy (make_ent 1 1)]"]
  by (simp add: reg_ok_def alive_make_ent)

section \<open>Claims about component pools\<close>

text \<open>
  Claim C6. After any interleaved sequence of \<^verbatim>\<open>add\<close> and \<^verbatim>\<open>remove\<close> operations on an
  empty pool: every dense row \<open>d\<close> has \<open>sparse[dense_idx[d]] = d\<close>; every sparse entry
  \<open>i\<close> that is not \<open>-1\<close> points at a row owned by \<open>i\<close>; and \<^verbatim>\<open>size()\<close> is the number of
  slot indices for which \<^verbatim>\<open>has\<close> is true (whatever generation the handle carries).
\<close>

theorem pool_sparse_dense_consistent:
  assumes "p = pool_run ops"
  shows "(\<forall>d < size_pool p. unat (dense_idx p ! d) < length (sparse p) \<and>
                          sparse p ! unat (dense_idx p ! d) = int d) \<and>
         (\<forall>i < length (sparse p). sparse p ! i \<ge> 0 \<longrightarrow>
             nat (sparse p ! i) < size_pool p \<and> unat (dense_idx p ! nat (sparse p ! i)) = i) \<and>
         size_pool p = card {i. has p (make_ent i g)}"
proof -
  have inv: "pool_inv p" unfolding assms by (rule pool_inv_run)
  then show ?thesis
    using size_counts_has[OF inv, of g] by (simp add: pool_inv_def size_pool_def)
qed

text \<open>
  The witness: two entities get a component and the first is removed, which moves the
  second row into position 0.
\<close>

theorem pool_sparse_dense_consistent_witness:
  "0 < size_pool (pool_run [Add (make_ent 0 1) (10::nat), Add (make_ent 1 1) 20, Remove (make_ent 0 1)]) \<and>
   sparse (pool_run [Add (make_ent 0 1) (10::nat), Add (make_ent 1 1) 20, Remove (make_ent 0 1)]) !
     unat (dense_idx (pool_run [Add (make_ent 0 1) (10::nat), Add (make_ent 1 1) 20, Remove (make_ent 0 1)]) ! 0) = 0 \<and>
   sparse (pool_run [Add (make_ent 0 1) (10::nat), Add (make_ent 1 1) 20, Remove (make_ent 0 1)]) = [-1, 0] \<and>
   size_pool (pool_run [Add (make_ent 0 1) (10::nat), Add (make_ent 1 1) 20, Remove (make_ent 0 1)]) =
     card {i. has (pool_run [Add (make_ent 0 1) (10::nat), Add (make_ent 1 1) 20, Remove (make_ent 0 1)]) (make_ent i 1)}"
proof -
  have run: "pool_run [Add (make_ent 0 1) (10::nat), Add (make_ent 1 1) 20, Remove (make_ent 0 1)]
      = \<lparr>dense_idx = [1], dense_val = [20], sparse = [-1, 0]\<rparr>"
    by (simp add: pool_run_def add_def remove_def ensure_sparse_def empty_pool_def)
  show ?thesis
    using pool_sparse_dense_consistent
      [OF refl, of "[Add (make_ent 0 1) (10::nat), Add (make_ent 1 1) 20, Remove (make_ent 0 1)]" 1]
    by (simp add: run size_pool_def)
qed

text \<open>
  Claim C1, as stated: after \<open>E\<close> is destroyed and \<open>E'\<close> is created in the same slot, the
  store answers "absent" to \<open>E\<close>'s old handle. It does not: \<^verbatim>\<open>has\<close> and \<^verbatim>\<open>get\<close> decode only
  the slot index. Entity \<open>(0, 1)\<close> gets the component 10 and is destroyed; the next
  create returns \<open>(0, 2)\<close>. The old handle still reads the leftover 10, and once
  \<open>(0, 2)\<close> has been given the component 20 the old handle reads 20.
\<close>

theorem stale_handle_absent_counterexample:
  "create empty_registry = Some (make_ent 0 1, \<lparr>gen = [1], free_list = []\<rparr>) \<and>
   create (destroy (make_ent 0 1) \<lparr>gen = [1], free_list = []\<rparr>)
     = Some (make_ent 0 2, \<lparr>gen = [2], free_list = []\<rparr>) \<and>
   has (add empty_pool (make_ent 0 1) (10::nat)) (make_ent 0 1) \<and>
   get (add empty_pool (make_ent 0 1) (10::nat)) (make_ent 0 1) = Some 10 \<and>
   get (add (add empty_pool (make_ent 0 1) (10::nat)) (make_ent 0 2) 20) (make_ent 0 1) = Some 20"
  by (simp add: create_def destroy_def empty_registry_def add_def ensure_sparse_def
        empty_pool_def has_def get_def get_pos_def)

text \<open>
  Claim C1, amended: \<^verbatim>\<open>has\<close> and \<^verbatim>\<open>get\<close> validate the slot index of a handle through the
  sparse/dense check and ignore its generation. When a live \<open>E\<close> is destroyed and the next
  create returns \<open>E'\<close>, then \<open>E'\<close> has \<open>E\<close>'s slot and another generation, the registry
  reports \<open>E\<close> dead, and the store gives \<open>E\<close>'s old handle exactly the answers it gives
  \<open>E'\<close>; the answer is "absent" once the slot's component has been removed.
\<close>

theorem stale_handle_reads_slot:
  assumes "alive r e" and "create (destroy e r) = Some (e', r')"
  shows "ent_idx e' = ent_idx e \<and> e' \<noteq> e \<and> \<not> alive r' e \<and>
         has p e = has p e' \<and> get p e = get p e' \<and>
         \<not> has (remove p e') e \<and> get (remove p e') e = None"
proof -
  from create_after_destroy[OF assms] have e': "e' = make_ent (ent_idx e) (ent_gen e + 1)"
    and g: "gen r' = (gen r)[unat (ent_idx e) := ent_gen e + 1]" by auto
  have ne: "ent_gen e + 1 \<noteq> ent_gen e" by simp
  have idx: "ent_idx e' = ent_idx e" by (simp add: e')
  have "ent_gen e' \<noteq> ent_gen e" using ne by (simp add: e')
  then have "e' \<noteq> e" by auto
  moreover have "\<not> alive r' e" using assms(1) ne by (auto simp: alive_def g Let_def)
  moreover have "\<not> has (remove p e') e" using remove_not_has[of p e'] has_same_idx[OF idx, of "remove p e'"] by simp
  moreover have "get (remove p e') e = None" using remove_get_None[of p e'] get_same_idx[OF idx, of "remove p e'"] by simp
  ultimately show ?thesis using idx has_same_idx[OF idx, of p] get_same_idx[OF idx, of p] by simp
qed

theorem stale_handle_reads_slot_witness:
  "alive \<lparr>gen = [1], free_list = []\<rparr> (make_ent 0 1) \<and>
   create (destroy (make_ent 0 1) \<lparr>gen = [1], free_list = []\<rparr>)
     = Some (make_ent 0 2, \<lparr>gen = [2], free_list = []\<rparr>) \<and>
   make_ent 0 2 \<noteq> make_ent 0 1 \<and>
   \<not> alive \<lparr>gen = [2], free_list = []\<rparr> (make_ent 0 1) \<and>
   has (add empty_pool (make_ent 0 1) (10::nat)) (make_ent 0 1)
     = has (add empty_pool (make_ent 0 1) (10::nat)) (make_ent 0 2) \<and>
   get (add empty_pool (make_ent 0 1) (10::nat)) (make_ent 0 1)
     = get (add empty_pool (make_ent 0 1) (10::nat)) (make_ent 0 2) \<and>
   \<not> has (remove (add empty_pool (make_ent 0 1) (10::nat)) (make_ent 0 2)) (make_ent 0 1) \<and>
   get (remove (add empty_pool (make_ent 0 1) (10::nat)) (make_ent 0 2)) (make_ent 0 1) = None"
proof -
  have a: "alive \<lparr>gen = [1], free_list = []\<rparr> (make_ent 0 1)"
    by (simp add: alive_make_ent)
  have c: "create (destroy (make_ent 0 1) \<lparr>gen = [1], free_list = []\<rparr>)
     = Some (make_ent 0 2, \<lparr>gen = [2], free_list = []\<rparr>)"
    by (simp add: create_def destroy_def)
  from stale_handle_reads_slot [OF a c, of "add empty_pool (make_ent 0 1) (10::nat)"] a c
  show ?thesis by simp
qed

section \<open>Tile world lemmas\<close>

lemma wrap32_id: "- 2147483648 \<le> x \<Longrightarrow> x < 2147483648 \<Longrightarrow> wrap32 x = x"
  by (simp add: wrap32_def)

lemma chunk_of_floor:
  assumes "- 2147483615 \<le> wx" and "wx \<le> 2147483647"
  shows "chunk_of wx = wx div 32"
proof (cases "wx \<ge> 0")
  case True
  then show ?thesis by (simp add: chunk_of_def cdiv_def CHUNK_def)
next
  case False
  then have neg: "wx < 0" by simp
  define nw where "nw = - wx"
  have nw: "0 < nw" "nw \<le> 2147483615" using assms neg by (simp_all add: nw_def)
  have 1: "wrap32 nw = nw" using nw by (intro wrap32_id) simp_all
  have 2: "wrap32 (nw + 32) = nw + 32" using nw by (intro wrap32_id) simp_all
  have w3: "wrap32 (nw + 31) = nw + 31" using nw by (intro wrap32_id) simp_all
  have e: "nw + 32 - 1 = nw + 31" by simp
  have 3: "wrap32 (nw + 32 - 1) = nw + 31" by (simp only: e w3)
  have 4: "cdiv (nw + 31) 32 = (nw + 31) div 32" using nw by (simp add: cdiv_def)
  have "nw + 31 = (31 - wx mod 32) + (- (wx div 32)) * 32"
    by (simp add: algebra_simps nw_def)
  then have "(nw + 31) div 32 = (31 - wx mod 32) div 32 + (- (wx div 32))"
    by (simp only: div_mult_self1 div_mult_self3 div_mult_self2)
  moreover have "(31 - wx mod 32) div 32 = 0"
    by (intro div_pos_pos_trivial) simp_all
  ultimately have 5: "- ((nw + 31) div 32) = wx div 32" by simp
  have "(- 2147483615) div 32 \<le> wx div 32" using assms(1) by (intro zdiv_mono1) simp_all
  moreover have "wx div 32 \<le> 0 div 32" using neg by (intro zdiv_mono1) simp_all
  ultimately have 6: "wrap32 (wx div 32) = wx div 32" by (intro wrap32_id) simp_all
  have "chunk_of wx = wrap32 (- cdiv (wrap32 (wrap32 (wrap32 nw + 32) - 1)) 32)"
    using neg unfolding chunk_of_def CHUNK_def nw_def by (simp only: not_le [symmetric] if_False)
  also have "\<dots> = wx div 32" by (simp only: 1 2 3 4 5 6)
  finally show ?thesis .
qed

lemma local_of_mod:
  assumes "- 2147483615 \<le> wx" and "wx \<le> 2147483647"
  shows "local_of wx = wx mod 32"
proof -
  have 1: "wrap32 (wx div 32 * 32) = wx div 32 * 32" using assms by (intro wrap32_id) auto
  have 2: "wx - wx div 32 * 32 = wx mod 32" by (simp add: minus_div_mult_eq_mod)
  have 3: "wrap32 (wx mod 32) = wx mod 32" by (intro wrap32_id) auto
  show ?thesis by (simp add: local_of_def chunk_of_floor[OF assms] CHUNK_def 1 2 3)
qed

lemma tile_index_small:
  assumes "0 \<le> lx" "lx < 32" "0 \<le> ly" "ly < 32"
  shows "tile_index lx ly = nat (ly * 32 + lx)" and "tile_index lx ly < 1024"
  using assms by (simp_all add: tile_index_def CHUNK_def)

lemma length_new_chunk: "length (tiles (new_chunk F x y)) = 1024"
proof -
  have "length (tiles (new_chunk F x y)) = sum_list (map (\<lambda>ty. 32) [0..<32::nat])"
    unfolding new_chunk_def by (simp only: Chunk.simps length_concat map_map comp_def length_map length_upt minus_nat.diff_0)
  also have "\<dots> = 1024" by (simp only: sum_list_triv length_upt) simp
  finally show ?thesis .
qed


lemma get_chunk_stored:
  assumes "get_chunk F w x y = (k, c, w')"
  shows "k = key x y \<and> chunk_map w' k = Some c"
  using assms by (auto simp: get_chunk_def Let_def split: option.splits)

lemma get_chunk_ok:
  assumes "world_ok w" and "get_chunk F w x y = (k, c, w')"
  shows "world_ok w' \<and> length (tiles c) = 1024"
  using assms by (auto simp: get_chunk_def Let_def world_ok_def length_new_chunk split: option.splits if_splits)

lemma get_chunk_present:
  assumes "chunk_map w (key x y) = Some c"
  shows "get_chunk F w x y = (key x y, c, w)"
  using assms by (simp add: get_chunk_def)

lemma get_chunk_absent:
  assumes "chunk_map w (key x y) = None"
  shows "get_chunk F w x y =
           (key x y, new_chunk F x y, w\<lparr>chunk_map := (chunk_map w)(key x y \<mapsto> new_chunk F x y)\<rparr>)"
  using assms by (simp add: get_chunk_def Let_def)

lemma set_then_get:
  assumes "world_set F w wx wy v = Some w'"
  shows "world_get F w' wx wy = Some (v, w')"
proof -
  obtain k c w1 where g: "get_chunk F w (chunk_of wx) (chunk_of wy) = (k, c, w1)"
    by (cases "get_chunk F w (chunk_of wx) (chunk_of wy)") auto
  define i where "i = tile_index (local_of wx) (local_of wy)"
  from assms g have i: "i < length (tiles c)"
    and w': "w' = w1\<lparr>chunk_map := (chunk_map w1)(k \<mapsto> c\<lparr>tiles := (tiles c)[i := v]\<rparr>)\<rparr>"
    by (auto simp: world_set_def Let_def i_def split: if_splits)
  from get_chunk_stored[OF g] have k: "k = key (chunk_of wx) (chunk_of wy)" by simp
  have "chunk_map w' (key (chunk_of wx) (chunk_of wy)) = Some (c\<lparr>tiles := (tiles c)[i := v]\<rparr>)"
    by (simp add: w' k)
  from get_chunk_present[OF this, of F] i show ?thesis
    by (simp add: world_get_def Let_def i_def [symmetric])
qed

lemma set_succeeds:
  assumes "world_ok w"
    and "- 2147483615 \<le> wx" "wx \<le> 2147483647" "- 2147483615 \<le> wy" "wy \<le> 2147483647"
  shows "\<exists>w'. world_set F w wx wy v = Some w' \<and> world_ok w'"
proof -
  obtain k c w1 where g: "get_chunk F w (chunk_of wx) (chunk_of wy) = (k, c, w1)"
    by (cases "get_chunk F w (chunk_of wx) (chunk_of wy)") auto
  from get_chunk_ok[OF assms(1) g] have ok1: "world_ok w1" and len: "length (tiles c) = 1024" by auto
  have i: "tile_index (local_of wx) (local_of wy) < 1024"
    using assms(2-5) by (intro tile_index_small) (simp_all add: local_of_mod)
  have "world_ok (w1\<lparr>chunk_map := (chunk_map w1)(k \<mapsto> c\<lparr>tiles := (tiles c)[tile_index (local_of wx) (local_of wy) := v]\<rparr>)\<rparr>)"
    using ok1 len by (auto simp: world_ok_def)
  then show ?thesis using g i len by (simp add: world_set_def Let_def)
qed

lemma concat_nth_rows:
  assumes "\<forall>r \<in> set rows. length r = m" and "i < length rows" and "j < m"
  shows "concat rows ! (i * m + j) = rows ! i ! j"
  using assms
proof (induction rows arbitrary: i)
  case Nil then show ?case by simp
next
  case (Cons r rows)
  then have lr: "length r = m" by simp
  show ?case
  proof (cases i)
    case 0
    with Cons.prems lr show ?thesis by (simp add: nth_append)
  next
    case (Suc i')
    with Cons.prems have "concat rows ! (i' * m + j) = rows ! i' ! j"
      by (intro Cons.IH) simp_all
    moreover have "Suc i' * m + j = length r + (i' * m + j)" by (simp add: lr)
    ultimately show ?thesis using Suc by (simp only: concat.simps nth_append_length_plus nth_Cons_Suc)
  qed
qed

lemma new_chunk_tile:
  assumes "tx < 32" and "ty < 32"
  shows "tiles (new_chunk F x y) ! (ty * 32 + tx) =
         gen_tile F (wrap32 (wrap32 (x * CHUNK) + int tx)) (wrap32 (wrap32 (y * CHUNK) + int ty))"
proof -
  define row where "row = (\<lambda>ty. map (\<lambda>tx.
                 gen_tile F (wrap32 (wrap32 (x * CHUNK) + int tx)) (wrap32 (wrap32 (y * CHUNK) + int ty)))
                 [0..<32])"
  have t: "tiles (new_chunk F x y) = concat (map row [0..<32])"
    by (simp add: new_chunk_def row_def)
  have "concat (map row [0..<32]) ! (ty * 32 + tx) = map row [0..<32] ! ty ! tx"
    using assms by (intro concat_nth_rows) (auto simp: row_def)
  also have "\<dots> = row ty ! tx" using assms(2) by (simp only: nth_map length_upt nth_upt) simp
  also have "\<dots> = gen_tile F (wrap32 (wrap32 (x * CHUNK) + int tx)) (wrap32 (wrap32 (y * CHUNK) + int ty))"
    using assms(1) unfolding row_def by (simp only: nth_map length_upt nth_upt) simp
  finally show ?thesis by (simp only: t)
qed

lemma ground_exact_0: "ground exact_ops 0 = 18"
  by (simp add: ground_def exact_ops_def lift2_def)

text \<open>
  Tile addressing on the coordinates whose arithmetic does not overflow: \<^verbatim>\<open>set\<close> succeeds,
  the local offsets are the remainders modulo 32, and \<^verbatim>\<open>get\<close> reads the value back.
\<close>

lemma tile_round_trip_in_range:
  assumes "world_ok w"
    and "- 2147483615 \<le> wx" "wx \<le> 2147483647" "- 2147483615 \<le> wy" "wy \<le> 2147483647"
  shows "\<exists>w'. world_set F w wx wy v = Some w' \<and> world_get F w' wx wy = Some (v, w') \<and>
              0 \<le> local_of wx \<and> local_of wx < 32 \<and> 0 \<le> local_of wy \<and> local_of wy < 32"
proof -
  from set_succeeds[OF assms, of F v] obtain w' where s: "world_set F w wx wy v = Some w'" by blast
  from set_then_get[OF s] s show ?thesis
    using assms(2-5) by (simp add: local_of_mod)
qed

lemma floor_rat_numeral: "\<lfloor>numeral a / numeral b :: rat\<rfloor> = numeral a div numeral b"
  using floor_divide_of_int_eq[of "numeral a" "numeral b", where ?'a = rat] by simp

lemmas eval_simps = exact_ops_def lift2_def rel2_def Let_def wrap32_def CHUNK_def cdiv_def
  chunk_of_def local_of_def tile_index_def solid_def floor_div_tile_def aabb_overlaps_tile_def
  floor_rat_numeral

lemma floor_world_get:
  assumes "0 \<le> tx" "tx < 32" "0 \<le> ty" "ty < 32"
  shows "world_get F floor_world tx ty =
           Some (if tx = 1 \<and> ty = 2 then 1 else 0, floor_world)"
proof -
  have c: "chunk_of tx = 0" "chunk_of ty = 0" using assms by (simp_all add: chunk_of_floor)
  have l: "local_of tx = tx" "local_of ty = ty" using assms by (simp_all add: local_of_mod)
  have i: "tile_index tx ty = nat (ty * 32 + tx)" "tile_index tx ty < 1024"
    using assms by (simp_all add: tile_index_small)
  have g: "get_chunk F floor_world 0 0 =
        (key 0 0, \<lparr>cx = 0, cy = 0, tiles = (replicate 1024 0)[65 := 1], used = True\<rparr>, floor_world)"
    by (rule get_chunk_present) (simp add: floor_world_def)
  have "(ty * 32 + tx) div 32 = ty" "(ty * 32 + tx) mod 32 = tx" using assms by simp_all
  then have "ty * 32 + tx = 65 \<Longrightarrow> tx = 1 \<and> ty = 2" by auto
  then have "ty * 32 + tx = 65 \<longleftrightarrow> tx = 1 \<and> ty = 2" by auto
  then have "nat (ty * 32 + tx) = 65 \<longleftrightarrow> tx = 1 \<and> ty = 2" using assms by (simp add: nat_eq_iff)
  then show ?thesis using i
    by (simp add: world_get_def c l g nth_list_update)
qed

section \<open>Claims about the tile world\<close>

text \<open>
  Claim C5 says that for all world tile coordinates \<^verbatim>\<open>get\<close> after \<^verbatim>\<open>set\<close> returns the value
  written and that the local offsets lie in \<open>[0, 32)\<close>. At \<open>wx = -2147483648\<close> the
  negation \<^verbatim>\<open>-wx\<close> of the round-up idiom overflows: the chunk coordinate comes out as
  67108863 and the local offset as 32. With \<open>wy = 31\<close> the tile index is 1024, outside
  the chunk's 1024 tiles, so that neither \<^verbatim>\<open>set\<close> nor \<^verbatim>\<open>get\<close> has a defined result.
\<close>

theorem tile_addressing_overflow:
  "chunk_of (- 2147483648) = 67108863 \<and> local_of (- 2147483648) = 32 \<and>
   local_of 31 = 31 \<and> tile_index 32 31 = 1024 \<and>
   world_set F \<lparr>tile_px = 32, chunk_map = Map.empty\<rparr> (- 2147483648) 31 v = None \<and>
   world_get F \<lparr>tile_px = 32, chunk_map = Map.empty\<rparr> (- 2147483648) 31 = None"
proof -
  have c: "chunk_of (- 2147483648) = 67108863"
    by (simp add: chunk_of_def cdiv_def CHUNK_def wrap32_def)
  have l: "local_of (- 2147483648) = 32"
    by (simp add: local_of_def c CHUNK_def wrap32_def)
  have l2: "local_of 31 = 31" by (simp add: local_of_mod)
  have t: "tile_index 32 31 = 1024" by (simp add: tile_index_def CHUNK_def)
  have g: "get_chunk F \<lparr>tile_px = 32, chunk_map = Map.empty\<rparr> a b =
        (key a b, new_chunk F a b, \<lparr>tile_px = 32, chunk_map = [key a b \<mapsto> new_chunk F a b]\<rparr>)" for a b
    by (simp add: get_chunk_absent)
  show ?thesis
    by (simp add: c l l2 t world_set_def world_get_def g length_new_chunk)
qed

lemma ground_unfold:
  "ground F wx =
     f_to_int F (f_add F (f_lit F 18 0)
       (f_add F (f_mul F (f_sin F (f_mul F (f_of_int F wx) (f_lit F 8 2))) (f_lit F 4 0))
                (f_mul F (f_sin F (f_mul F (f_of_int F wx) (f_lit F 2 2))) (f_lit F 10 0))))"
  by (simp add: ground_def Let_def)

lemma ground_real:
  "ground real_ops wx = \<lfloor>18 + 4 * sin (real_of_int wx * (8 / 100)) + 10 * sin (real_of_int wx * (2 / 100))\<rfloor>"
proof -
  define a where "a = sin (real_of_int wx * (8 / 100))"
  define b where "b = sin (real_of_int wx * (2 / 100))"
  have "- 1 \<le> a" "- 1 \<le> b" by (simp_all add: a_def b_def)
  then have pos: "0 \<le> 18 + (a * 4 + b * 10)" by simp
  have "ground real_ops wx = (if 0 \<le> 18 + (a * 4 + b * 10) then \<lfloor>18 + (a * 4 + b * 10)\<rfloor>
                               else - \<lfloor>- (18 + (a * 4 + b * 10))\<rfloor>)"
    by (simp add: ground_def real_ops_def a_def b_def Let_def)
  also have "\<dots> = \<lfloor>18 + (a * 4 + b * 10)\<rfloor>" using pos by simp
  also have "18 + (a * 4 + b * 10) = 18 + 4 * a + 10 * b" by simp
  finally show ?thesis by (simp only: a_def b_def)
qed

lemma ground_real_bounds: "4 \<le> ground real_ops wx \<and> ground real_ops wx \<le> 32"
proof -
  define a where "a = sin (real_of_int wx * (8 / 100))"
  define b where "b = sin (real_of_int wx * (2 / 100))"
  have "- 1 \<le> a" "- 1 \<le> b" "a \<le> 1" "b \<le> 1" by (simp_all add: a_def b_def)
  then have lo: "of_int 4 \<le> 18 + 4 * a + 10 * b" and hi: "18 + 4 * a + 10 * b \<le> of_int 32" by simp_all
  have g: "ground real_ops wx = \<lfloor>18 + 4 * a + 10 * b\<rfloor>" unfolding a_def b_def by (rule ground_real)
  from lo have "4 \<le> \<lfloor>18 + 4 * a + 10 * b\<rfloor>" by (simp only: le_floor_iff)
  moreover from hi have "\<lfloor>18 + 4 * a + 10 * b\<rfloor> \<le> 32" 
    using floor_mono[OF hi] by simp
  ultimately show ?thesis by (simp only: g)
qed

lemma sin_cubic:
  fixes x :: real
  assumes "0 \<le> x"
  shows "x - x ^ 3 / 6 \<le> sin x"
proof -
  have s: "(\<Sum>m<3. sin_coeff m * x ^ m) = x"
    by (simp add: sin_coeff_def numeral_3_eq_3)
  from Maclaurin_sin_bound[of x 3] have "\<bar>sin x - x\<bar> \<le> inverse (fact 3) * \<bar>x\<bar> ^ 3"
    by (simp only: s)
  moreover have "inverse (fact 3) * \<bar>x\<bar> ^ 3 = x ^ 3 / 6" using assms
    by (simp add: fact_numeral)
  ultimately show ?thesis by linarith
qed

lemma ground_real_m5: "ground real_ops (- 5) = 15"
proof -
  have a1: "sin (2 / 5 :: real) \<le> 2 / 5" by (rule sin_x_le_x) simp
  have b1: "sin (1 / 10 :: real) \<le> 1 / 10" by (rule sin_x_le_x) simp
  have a2: "(2 / 5 :: real) - (2 / 5) ^ 3 / 6 \<le> sin (2 / 5)" by (rule sin_cubic) simp
  have b2: "(1 / 10 :: real) - (1 / 10) ^ 3 / 6 \<le> sin (1 / 10)" by (rule sin_cubic) simp
  have e: "18 + 4 * sin (real_of_int (- 5) * (8 / 100)) + 10 * sin (real_of_int (- 5) * (2 / 100))
           = 18 - 4 * sin (2 / 5 :: real) - 10 * sin (1 / 10 :: real)"
  proof -
    have "real_of_int (- 5) * (8 / 100) = - (2 / 5)" by simp
    moreover have "real_of_int (- 5) * (2 / 100) = - (1 / 10)" by simp
    ultimately show ?thesis by (simp only: sin_minus)
  qed
  have lo: "of_int 15 \<le> 18 - 4 * sin (2 / 5 :: real) - 10 * sin (1 / 10 :: real)"
    using a1 b1 by simp
  have hi: "18 - 4 * sin (2 / 5 :: real) - 10 * sin (1 / 10 :: real) < of_int 15 + 1"
    using a2 b2 by (simp add: power3_eq_cube)
  have "\<lfloor>18 - 4 * sin (2 / 5 :: real) - 10 * sin (1 / 10 :: real)\<rfloor> = 15"
    using lo hi by (rule floor_unique)
  then show ?thesis by (simp only: ground_real e)
qed

text \<open>
  Claim C7. A chunk that is not yet in the table is generated from its coordinates
  alone: it has 1024 tiles, and the tile at local \<open>(tx, ty)\<close>, world \<open>(wx, wy)\<close>, with
  \<open>g\<close> the ground height, is stone (2) more than 10 below the ground, dirt (1) below the
  ground up to that depth, grass (4) at the ground and empty (0) above it. Any other
  world lacking the chunk generates the same chunk. The ground height is the cast to
  \<^verbatim>\<open>int\<close> of 18 plus the sum of a sine of \<open>wx * 0.08\<close> times 4 and a sine of \<open>wx * 0.02\<close>
  times 10, in the float arithmetic \<open>F\<close>; in real arithmetic that is the floor of
  \<open>18 + 4 sin (0.08 wx) + 10 sin (0.02 wx)\<close>, a height between 4 and 32.
\<close>

theorem terrain_rule:
  assumes "chunk_map w (key x y) = None" and "get_chunk F w x y = (k, c, w')"
    and "tx < 32" and "ty < 32"
    and "wx = wrap32 (wrap32 (x * CHUNK) + int tx)"
    and "wy = wrap32 (wrap32 (y * CHUNK) + int ty)"
    and "g = ground F wx" and "- 2147483648 \<le> g" and "g \<le> 2147483637"
    and "chunk_map w2 (key x y) = None"
  shows "length (tiles c) = 1024 \<and>
         (g + 10 < wy \<longrightarrow> tiles c ! (ty * 32 + tx) = 2) \<and>
         (g < wy \<and> wy \<le> g + 10 \<longrightarrow> tiles c ! (ty * 32 + tx) = 1) \<and>
         (wy = g \<longrightarrow> tiles c ! (ty * 32 + tx) = 4) \<and>
         (wy < g \<longrightarrow> tiles c ! (ty * 32 + tx) = 0) \<and>
         fst (snd (get_chunk F w2 x y)) = c \<and>
         g = f_to_int F (f_add F (f_lit F 18 0)
               (f_add F (f_mul F (f_sin F (f_mul F (f_of_int F wx) (f_lit F 8 2))) (f_lit F 4 0))
                        (f_mul F (f_sin F (f_mul F (f_of_int F wx) (f_lit F 2 2))) (f_lit F 10 0)))) \<and>
         ground real_ops wx =
           \<lfloor>18 + 4 * sin (real_of_int wx * (8 / 100)) + 10 * sin (real_of_int wx * (2 / 100))\<rfloor> \<and>
         4 \<le> ground real_ops wx \<and> ground real_ops wx \<le> 32"
proof -
  from assms(1,2) have c: "c = new_chunk F x y" by (simp add: get_chunk_absent)
  have c2: "fst (snd (get_chunk F w2 x y)) = new_chunk F x y"
    using assms(10) by (simp add: get_chunk_absent)
  have w: "wrap32 (g + 10) = g + 10" using assms(8,9) by (intro wrap32_id) simp_all
  have t: "tiles c ! (ty * 32 + tx) = gen_tile F wx wy"
    unfolding c assms(5,6) using assms(3,4) by (rule new_chunk_tile)
  have rule: "length (tiles c) = 1024 \<and>
         (g + 10 < wy \<longrightarrow> tiles c ! (ty * 32 + tx) = 2) \<and>
         (g < wy \<and> wy \<le> g + 10 \<longrightarrow> tiles c ! (ty * 32 + tx) = 1) \<and>
         (wy = g \<longrightarrow> tiles c ! (ty * 32 + tx) = 4) \<and>
         (wy < g \<longrightarrow> tiles c ! (ty * 32 + tx) = 0) \<and>
         fst (snd (get_chunk F w2 x y)) = c"
    unfolding t by (simp add: gen_tile_def assms(7) [symmetric] Let_def w c2) (simp add: c length_new_chunk)
  have g: "g = f_to_int F (f_add F (f_lit F 18 0)
               (f_add F (f_mul F (f_sin F (f_mul F (f_of_int F wx) (f_lit F 8 2))) (f_lit F 4 0))
                        (f_mul F (f_sin F (f_mul F (f_of_int F wx) (f_lit F 2 2))) (f_lit F 10 0))))"
    unfolding assms(7) by (rule ground_unfold)
  from rule g ground_real[of wx] ground_real_bounds[of wx] show ?thesis by blast
qed

text \<open>
  The witness, in real arithmetic: the column \<open>wx = -5\<close> of chunk \<open>(-1, 0)\<close>, where both
  sines are negative and the ground is at 15; the tile at depth 26 is stone.
\<close>

theorem terrain_rule_witness:
  "chunk_map \<lparr>tile_px = 32, chunk_map = Map.empty\<rparr> (key (- 1) 0) = None \<and>
   get_chunk real_ops \<lparr>tile_px = 32, chunk_map = Map.empty\<rparr> (- 1) 0 =
     (key (- 1) 0, new_chunk real_ops (- 1) 0,
      \<lparr>tile_px = 32, chunk_map = [key (- 1) 0 \<mapsto> new_chunk real_ops (- 1) 0]\<rparr>) \<and>
   (- 5 :: int) = wrap32 (wrap32 (- 1 * CHUNK) + int 27) \<and>
   (26 :: int) = wrap32 (wrap32 (0 * CHUNK) + int 26) \<and>
   ground real_ops (- 5) = 15 \<and>
   length (tiles (new_chunk real_ops (- 1) 0)) = 1024 \<and>
   tiles (new_chunk real_ops (- 1) 0) ! (26 * 32 + 27) = 2 \<and>
   fst (snd (get_chunk real_ops \<lparr>tile_px = 16, chunk_map = Map.empty\<rparr> (- 1) 0)) = new_chunk real_ops (- 1) 0"
proof -
  let ?w = "\<lparr>tile_px = 32, chunk_map = Map.empty\<rparr>"
  let ?w2 = "\<lparr>tile_px = 16, chunk_map = Map.empty\<rparr>"
  let ?c = "new_chunk real_ops (- 1) 0"
  have h1: "chunk_map ?w (key (- 1) 0) = None" by simp
  have h2: "get_chunk real_ops ?w (- 1) 0 =
              (key (- 1) 0, ?c, \<lparr>tile_px = 32, chunk_map = [key (- 1) 0 \<mapsto> ?c]\<rparr>)"
    by (simp add: get_chunk_absent)
  have h3: "(27 :: nat) < 32" and h4: "(26 :: nat) < 32" by simp_all
  have h5: "(- 5 :: int) = wrap32 (wrap32 (- 1 * CHUNK) + int 27)"
    and h6: "(26 :: int) = wrap32 (wrap32 (0 * CHUNK) + int 26)"
    by (simp_all add: wrap32_def CHUNK_def)
  have h7: "(15 :: int) = ground real_ops (- 5)" by (simp only: ground_real_m5)
  have h8: "- 2147483648 \<le> (15 :: int)" and h9: "(15 :: int) \<le> 2147483637" by simp_all
  have h10: "chunk_map ?w2 (key (- 1) 0) = None" by simp
  note t = terrain_rule [OF h1 h2 h3 h4 h5 h6 h7 h8 h9 h10]
  from t have a: "length (tiles ?c) = 1024" by (rule conjunct1)
  from t have "(15 :: int) + 10 < 26 \<longrightarrow> tiles ?c ! (26 * 32 + 27) = 2" by blast
  then have b: "tiles ?c ! (26 * 32 + 27) = 2" by simp
  from t have c: "fst (snd (get_chunk real_ops ?w2 (- 1) 0)) = ?c" by blast
  from h1 h2 h5 h6 h7 a b c show ?thesis by (simp only: simp_thms)
qed

section \<open>Light map lemmas\<close>

lemma darkness_raise:
  assumes "i < length xs" and "xs ! i < (v :: u8)"
  shows "darkness (xs[i := v]) < darkness xs"
proof -
  define f where "f = (\<lambda>c :: u8. 255 - unat c)"
  have "unat v < 2 ^ LENGTH(8)" by (rule unsigned_less)
  then have v: "unat v \<le> 255" by simp
  have lt: "unat (xs ! i) < unat v" using assms(2) by (simp add: word_less_nat_alt)
  then have flt: "f v < f (xs ! i)" using v by (simp add: f_def)
  have m: "map f (xs[i := v]) = (map f xs)[i := f v]" by (simp add: map_update)
  have "sum_list ((map f xs)[i := f v]) = sum_list (map f xs) + f v - (map f xs) ! i"
    using assms(1) by (intro sum_list_update) simp
  moreover have "(map f xs) ! i \<le> sum_list (map f xs)"
    using assms(1) by (intro elem_le_sum_list) simp
  moreover have "(map f xs) ! i = f (xs ! i)" using assms(1) by simp
  ultimately have "sum_list (map f (xs[i := v])) < sum_list (map f xs)"
    using flt m by simp
  then show ?thesis by (simp add: darkness_def f_def)
qed

lemma push_cases:
  assumes "push lm q x y v = Some (lm', q')"
  shows "(lm' = lm \<and> q' = q) \<or>
         (0 \<le> x \<and> x < grid_w lm \<and> 0 \<le> y \<and> y < grid_h lm \<and>
          cell_index lm x y < length (L_grid lm) \<and> L_grid lm ! cell_index lm x y < v \<and>
          lm' = lm\<lparr>L_grid := (L_grid lm)[cell_index lm x y := v]\<rparr> \<and> q' = q @ [(x, y, v)])"
  using assms by (auto simp: push_def Let_def split: if_splits)

lemma push_measure:
  assumes "push lm q x y v = Some (lm', q')"
  shows "2 * darkness (L_grid lm') + length q' < 2 * darkness (L_grid lm) + length q + 1"
  using push_cases[OF assms] darkness_raise[of "cell_index lm x y" "L_grid lm" v]
  by auto

lemma step4_measure:
  assumes "step4 lm q x y nv = Some (lm', q')"
  shows "2 * darkness (L_grid lm') + length q' < 2 * darkness (L_grid lm) + length q + 1"
proof -
  from assms obtain lm1 q1 lm2 q2 lm3 q3 where
    1: "push lm q (x + 1) y nv = Some (lm1, q1)" and
    2: "push lm1 q1 (x - 1) y nv = Some (lm2, q2)" and
    3: "push lm2 q2 x (y + 1) nv = Some (lm3, q3)" and
    4: "push lm3 q3 x (y - 1) nv = Some (lm', q')"
    by (auto simp: step4_def split: option.splits)
  from push_measure[OF 1] push_measure[OF 2] push_measure[OF 3] push_measure[OF 4]
  show ?thesis by linarith
qed

lemma push_length_mono:
  assumes "push lm q x y v = Some (lm', q')" shows "length q \<le> length q'"
  using push_cases[OF assms] by auto

lemma step4_length_mono:
  assumes "step4 lm q x y nv = Some (lm', q')" shows "length q \<le> length q'"
proof -
  from assms obtain lm1 q1 lm2 q2 lm3 q3 where
    1: "push lm q (x + 1) y nv = Some (lm1, q1)" and
    2: "push lm1 q1 (x - 1) y nv = Some (lm2, q2)" and
    3: "push lm2 q2 x (y + 1) nv = Some (lm3, q3)" and
    4: "push lm3 q3 x (y - 1) nv = Some (lm', q')"
    by (auto simp: step4_def split: option.splits)
  from push_length_mono[OF 1] push_length_mono[OF 2] push_length_mono[OF 3] push_length_mono[OF 4]
  show ?thesis by linarith
qed

lemma visit_measure:
  assumes "visit F w lm q qi = Some (w', lm', q')"
  shows "2 * darkness (L_grid lm') + length q' < 2 * darkness (L_grid lm) + length q + 1
         \<and> length q \<le> length q'"
proof -
  obtain x y v where n: "q ! qi = (x, y, v)" by (cases "q ! qi") auto
  show ?thesis
  proof (cases "v \<le> 1")
    case True
    with assms n show ?thesis by (simp add: visit_def)
  next
    case False
    with assms n obtain t w1 where "step4 lm q x y (attenuate v (decay_of t)) = Some (lm', q')"
      by (auto simp: visit_def split: option.splits)
    from step4_measure[OF this] step4_length_mono[OF this] show ?thesis by simp
  qed
qed

text \<open>Every visit that raises \<open>k\<close> cells lengthens the queue by \<open>k\<close> and lowers the darkness by at least \<open>k\<close>.\<close>

termination propagate
proof (relation "measure (\<lambda>(F, w, lm, q, qi). 2 * darkness (L_grid lm) + (length q - qi))")
  show "wf (measure (\<lambda>(F, w, lm, q, qi). 2 * darkness (L_grid lm) + (length q - qi)))" by simp
next
  fix F :: "'a fops" and w lm q qi x2 w' y lm' q'
  assume a: "qi < length q" "visit F w lm q qi = Some x2" "(w', y) = x2" "(lm', q') = y"
  then have "visit F w lm q qi = Some (w', lm', q')" by simp
  from visit_measure[OF this] a(1)
  show "((F, w', lm', q', qi + 1), (F, w, lm, q, qi))
        \<in> measure (\<lambda>(F, w, lm, q, qi). 2 * darkness (L_grid lm) + (length q - qi))"
    by simp linarith
qed

declare propagate.simps [simp del]



text \<open>Every step of \<^verbatim>\<open>build\<close> keeps the grid and the length of the cell vector.\<close>

lemma push_same:
  assumes "push lm q x y v = Some (lm', q')"
  shows "same_grid lm lm' \<and> length (L_grid lm') = length (L_grid lm)"
  using push_cases[OF assms] by (auto simp: same_grid_def)

lemma same_grid_len_trans:
  assumes "same_grid a b \<and> length (L_grid b) = length (L_grid a)"
    and "same_grid b c \<and> length (L_grid c) = length (L_grid b)"
  shows "same_grid a c \<and> length (L_grid c) = length (L_grid a)"
  using assms by (simp add: same_grid_def)

lemma step4_same:
  assumes "step4 lm q x y nv = Some (lm', q')"
  shows "same_grid lm lm' \<and> length (L_grid lm') = length (L_grid lm)"
proof -
  from assms obtain lm1 q1 lm2 q2 lm3 q3 where
    1: "push lm q (x + 1) y nv = Some (lm1, q1)" and
    2: "push lm1 q1 (x - 1) y nv = Some (lm2, q2)" and
    3: "push lm2 q2 x (y + 1) nv = Some (lm3, q3)" and
    4: "push lm3 q3 x (y - 1) nv = Some (lm', q')"
    by (auto simp: step4_def split: option.splits)
  from push_same[OF 1] push_same[OF 2] push_same[OF 3] push_same[OF 4]
  show ?thesis by (simp add: same_grid_def)
qed

lemma visit_same:
  assumes "visit F w lm q qi = Some (w', lm', q')"
  shows "same_grid lm lm' \<and> length (L_grid lm') = length (L_grid lm)"
proof -
  obtain x y v where n: "q ! qi = (x, y, v)" by (cases "q ! qi") auto
  show ?thesis
  proof (cases "v \<le> 1")
    case True
    with assms n show ?thesis by (simp add: visit_def same_grid_def)
  next
    case False
    with assms n obtain t w1 where "step4 lm q x y (attenuate v (decay_of t)) = Some (lm', q')"
      by (auto simp: visit_def split: option.splits)
    from step4_same[OF this] show ?thesis .
  qed
qed

lemma propagate_same:
  assumes "propagate F w lm q qi = Some (lm', w')"
  shows "same_grid lm lm' \<and> length (L_grid lm') = length (L_grid lm)"
  using assms
proof (induction F w lm q qi rule: propagate.induct)
  case (1 F w lm q qi)
  show ?case
  proof (cases "qi < length q")
    case False
    with "1.prems" have "lm' = lm" by (subst (asm) propagate.simps) simp
    then show ?thesis by (simp add: same_grid_def)
  next
    case True
    with "1.prems" obtain w1 lm1 q1 where
      v: "visit F w lm q qi = Some (w1, lm1, q1)" and
      p: "propagate F w1 lm1 q1 (qi + 1) = Some (lm', w')"
      by (subst (asm) propagate.simps) (auto split: option.splits)
    from "1.IH"[OF True v refl refl p] visit_same[OF v]
    show ?thesis by (simp add: same_grid_def)
  qed
qed

lemma seed_same:
  assumes "seed lm q ls = Some (lm', q')"
  shows "same_grid lm lm' \<and> length (L_grid lm') = length (L_grid lm)"
  using assms
proof (induction ls arbitrary: lm q)
  case Nil
  then show ?case by (simp add: same_grid_def)
next
  case (Cons a ls)
  obtain tx ty i where a: "a = (tx, ty, i)" by (cases a) auto
  from Cons.prems a obtain lm1 q1 where
    p: "push lm q (wrap32 (tx - ox lm)) (wrap32 (ty - oy lm)) i = Some (lm1, q1)" and
    s: "seed lm1 q1 ls = Some (lm', q')"
    by (auto split: option.splits)
  from push_same[OF p] Cons.IH[OF s] show ?case by (simp add: same_grid_def)
qed

lemma build_grid_lm_ok:
  assumes "build_grid F world lm tx0 tx1 ty0 ty1 seeds = Some (lm', world')"
  shows "lm_ok lm'"
proof -
  define gw where "gw = wrap32 (wrap32 (tx1 - tx0) + 1)"
  define gh where "gh = wrap32 (wrap32 (ty1 - ty0) + 1)"
  show ?thesis
  proof (cases "gw \<le> 0 \<or> gh \<le> 0")
    case True
    with assms have "lm' = lm\<lparr>ox := tx0, oy := ty0, grid_w := 0, grid_h := 0, L_grid := []\<rparr>"
      by (auto simp: build_grid_def Let_def gw_def gh_def)
    then show ?thesis by (simp add: lm_ok_def)
  next
    case False
    define lm2 where "lm2 = lm\<lparr>ox := tx0, oy := ty0, grid_w := gw, grid_h := gh,
                                L_grid := replicate (nat gw * nat gh) (ambient lm)\<rparr>"
    from False assms obtain lm3 q where
      s: "seed lm2 [] seeds = Some (lm3, q)" and
      p: "propagate F world lm3 q 0 = Some (lm', world')"
      by (auto simp: build_grid_def Let_def gw_def gh_def lm2_def split: option.splits)
    have "lm_ok lm2" by (simp add: lm_ok_def lm2_def)
    with seed_same[OF s] propagate_same[OF p] show ?thesis
      by (simp add: lm_ok_def same_grid_def)
  qed
qed

lemma build_lm_ok:
  assumes "build F world lm cam lights = Some (lm', world')"
  shows "lm_ok lm'"
proof -
  obtain tx0 tx1 ty0 ty1 where "visible_bounds F cam (tile_px world) = (tx0, tx1, ty0, ty1)"
    by (cases "visible_bounds F cam (tile_px world)") auto
  with assms have "build_grid F world lm tx0 tx1 ty0 ty1 (map (light_seed F (tile_px world)) lights)
                     = Some (lm', world')"
    by (simp add: build_def)
  then show ?thesis by (rule build_grid_lm_ok)
qed

lemma lm_step_ok:
  assumes "lm_step F x lm = Some lm'" and "lm_ok lm"
  shows "lm_ok lm'"
proof (cases x)
  case (Set_ambient a)
  with assms show ?thesis by (auto simp: lm_ok_def)
next
  case (Build world cam lights)
  with assms(1) obtain world' where "build F world lm cam lights = Some (lm', world')"
    by auto
  then show ?thesis by (rule build_lm_ok)
qed

lemma lm_run_ok:
  assumes "lm_run F xs lm = Some lm'" and "lm_ok lm"
  shows "lm_ok lm'"
  using assms
proof (induction xs arbitrary: lm)
  case Nil then show ?case by simp
next
  case (Cons x xs)
  from Cons.prems(1) obtain lm1 where s: "lm_step F x lm = Some lm1" and r: "lm_run F xs lm1 = Some lm'"
    by (auto split: option.splits)
  from Cons.IH[OF r lm_step_ok[OF s Cons.prems(2)]] show ?case .
qed

lemma lm_ok_initial: "lm_ok initial_lightmap"
  by (simp add: lm_ok_def initial_lightmap_def)

lemma row_major_bound:
  assumes "lm_ok lm" and "0 \<le> x" "x < grid_w lm" "0 \<le> y" "y < grid_h lm"
  shows "nat y * nat (grid_w lm) + nat x < length (L_grid lm)"
proof -
  have "nat y * nat (grid_w lm) + nat x < nat y * nat (grid_w lm) + nat (grid_w lm)"
    using assms by simp
  also have "\<dots> = (nat y + 1) * nat (grid_w lm)" by simp
  also have "\<dots> \<le> nat (grid_h lm) * nat (grid_w lm)"
    using assms by (intro mult_right_mono) auto
  finally show ?thesis using assms(1) by (simp add: lm_ok_def mult.commute)
qed

lemma sample_tile_ok:
  assumes "lm_ok lm"
  shows "sample_tile lm tx ty =
           Some (if 0 \<le> wrap32 (tx - ox lm) \<and> wrap32 (tx - ox lm) < grid_w lm \<and>
                    0 \<le> wrap32 (ty - oy lm) \<and> wrap32 (ty - oy lm) < grid_h lm
                 then L_grid lm ! (nat (wrap32 (ty - oy lm)) * nat (grid_w lm) + nat (wrap32 (tx - ox lm)))
                 else ambient lm)"
proof -
  define x where "x = wrap32 (tx - ox lm)"
  define y where "y = wrap32 (ty - oy lm)"
  show ?thesis
    using row_major_bound[OF assms, of x y]
    unfolding sample_tile_def x_def [symmetric] y_def [symmetric] Let_def cell_index_def
    by auto
qed

lemma peek_bounds: "visible_bounds exact_ops peek_cam 32 = (- 3, 7, - 3, 5)"
  by (simp add: visible_bounds_def tile_of_def peek_cam_def eval_simps)

lemma candle_seed: "light_seed exact_ops 32 candle = (3, 1, 50)"
  by (simp add: light_seed_def tile_of_def candle_def eval_simps)

lemma candle_build:
  "build exact_ops floor_world initial_lightmap peek_cam [candle] = Some (candle_map, floor_world)"
proof -
  define lm2 where "lm2 = \<lparr>grid_w = 11, grid_h = 9, ox = - 3, oy = - 3,
                            L_grid = replicate 99 40, ambient = 40 :: u8\<rparr>"
  have tp: "tile_px floor_world = 32" by (simp add: floor_world_def)
  have s: "seed lm2 [] [(3, 1, 50)] = Some (candle_map, [(6, 4, 50)])"
    by (simp add: lm2_def push_def cell_index_def wrap32_def candle_map_def)
  have g: "world_get exact_ops floor_world (wrap32 (ox candle_map + 6)) (wrap32 (oy candle_map + 4))
             = Some (0, floor_world)"
    by (simp add: candle_map_def wrap32_def floor_world_get)
  have p1: "push candle_map q 7 4 38 = Some (candle_map, q)" for q
    by (simp add: push_def cell_index_def candle_map_def)
  have p2: "push candle_map q 5 4 38 = Some (candle_map, q)" for q
    by (simp add: push_def cell_index_def candle_map_def)
  have p3: "push candle_map q 6 5 38 = Some (candle_map, q)" for q
    by (simp add: push_def cell_index_def candle_map_def)
  have p4: "push candle_map q 6 3 38 = Some (candle_map, q)" for q
    by (simp add: push_def cell_index_def candle_map_def)
  have v: "visit exact_ops floor_world candle_map [(6, 4, 50)] 0 = Some (floor_world, candle_map, [(6, 4, 50)])"
    by (simp add: visit_def g step4_def attenuate_def decay_of_def solid_def p1 p2 p3 p4)
  have "propagate exact_ops floor_world candle_map [(6, 4, 50)] 1 = Some (candle_map, floor_world)"
    by (subst propagate.simps) simp
  then have p: "propagate exact_ops floor_world candle_map [(6, 4, 50)] 0 = Some (candle_map, floor_world)"
    by (subst propagate.simps) (simp add: v)
  have "build_grid exact_ops floor_world initial_lightmap (- 3) 7 (- 3) 5 [(3, 1, 50)]
          = Some (candle_map, floor_world)"
    by (simp add: build_grid_def initial_lightmap_def wrap32_def Let_def lm2_def [symmetric] s p del: seed.simps)
  then show ?thesis by (simp add: build_def tp peek_bounds candle_seed)
qed

section \<open>Light propagation lemmas\<close>






lemma in_grid_L [simp]: "in_grid (lm\<lparr>L_grid := xs\<rparr>) x y = in_grid lm x y"
  by (simp add: in_grid_def)

lemma cell_index_L [simp]: "cell_index (lm\<lparr>L_grid := xs\<rparr>) x y = cell_index lm x y"
  by (simp add: cell_index_def)

lemma lm_ok_L [simp]: "lm_ok (lm\<lparr>L_grid := (L_grid lm)[i := v]\<rparr>) = lm_ok lm"
  by (simp add: lm_ok_def)

lemma same_grid_L [simp]: "same_grid lm (lm\<lparr>L_grid := xs\<rparr>)"
  by (simp add: same_grid_def)

































section \<open>Claims about the light map\<close>

text \<open>
  Claim C9. In every state of a light map (the initial one, and after any sequence of
  assignments to \<^verbatim>\<open>ambient\<close> and calls of \<^verbatim>\<open>build\<close> that return), the vector holds one
  cell per grid tile, and \<^verbatim>\<open>sample_tile\<close> returns a value for every world tile
  coordinate: with \<open>x = world_tx - ox\<close> and \<open>y = world_ty - oy\<close>, the cell at index
  \<open>y * w + x\<close> of the vector when \<open>0 \<le> x < w\<close> and \<open>0 \<le> y < h\<close>, an index inside the
  vector, and the ambient value otherwise.
\<close>

theorem sample_tile_total:
  assumes "lm_run F ops initial_lightmap = Some lm"
    and "x = wrap32 (tx - ox lm)" and "y = wrap32 (ty - oy lm)"
  shows "lm_ok lm \<and>
         sample_tile lm tx ty =
           Some (if 0 \<le> x \<and> x < grid_w lm \<and> 0 \<le> y \<and> y < grid_h lm
                 then L_grid lm ! (nat y * nat (grid_w lm) + nat x)
                 else ambient lm) \<and>
         (0 \<le> x \<and> x < grid_w lm \<and> 0 \<le> y \<and> y < grid_h lm \<longrightarrow>
            nat y * nat (grid_w lm) + nat x < length (L_grid lm))"
proof -
  have ok: "lm_ok lm" using assms(1) lm_ok_initial by (rule lm_run_ok)
  from sample_tile_ok[OF ok, of tx ty] row_major_bound[OF ok, of x y] ok
  show ?thesis unfolding assms(2,3) by blast
qed

text \<open>
  The witness: the light map built for the small scene, its ambient value then set to
  35. The light's tile \<open>(3, 1)\<close> is cell \<open>4 * 11 + 6\<close> and holds 50, tile \<open>(1, 3)\<close> is inside
  the grid and holds the ambient value of the build, 40; column 8 and row \<open>-4\<close> are
  outside the grid and give the ambient value of the moment, 35.
\<close>

theorem sample_tile_total_witness:
  "lm_run exact_ops [Build floor_world peek_cam [candle], Set_ambient 35] initial_lightmap
     = Some (candle_map\<lparr>ambient := 35\<rparr>) \<and>
   sample_tile (candle_map\<lparr>ambient := 35\<rparr>) 3 1 = Some 50 \<and>
   sample_tile (candle_map\<lparr>ambient := 35\<rparr>) 1 3 = Some 40 \<and>
   sample_tile (candle_map\<lparr>ambient := 35\<rparr>) 8 1 = Some 35 \<and>
   sample_tile (candle_map\<lparr>ambient := 35\<rparr>) 3 (- 4) = Some 35"
proof -
  let ?ops = "[Build floor_world peek_cam [candle], Set_ambient 35]"
  let ?lm = "candle_map\<lparr>ambient := 35\<rparr>"
  have r: "lm_run exact_ops ?ops initial_lightmap = Some ?lm"
    by (simp add: candle_build)
  have w: "(6 :: int) = wrap32 (3 - ox ?lm)" "(4 :: int) = wrap32 (1 - oy ?lm)"
          "(11 :: int) = wrap32 (8 - ox ?lm)" "(- 1 :: int) = wrap32 (- 4 - oy ?lm)"
          "(4 :: int) = wrap32 (1 - ox ?lm)" "(6 :: int) = wrap32 (3 - oy ?lm)"
    by (simp_all add: candle_map_def wrap32_def)
  from sample_tile_total [OF r w(1) w(2)]
  have a: "sample_tile ?lm 3 1 = Some 50" by (simp add: candle_map_def)
  from sample_tile_total [OF r w(5) w(6)]
  have b: "sample_tile ?lm 1 3 = Some 40" by (simp add: candle_map_def)
  from sample_tile_total [OF r w(3) w(2)]
  have c: "sample_tile ?lm 8 1 = Some 35" by (simp add: candle_map_def)
  from sample_tile_total [OF r w(1) w(4)]
  have d: "sample_tile ?lm 3 (- 4) = Some 35" by (simp add: candle_map_def)
  from r a b c d show ?thesis by (simp only: simp_thms)
qed




section \<open>Physics lemmas\<close>

lemma y_step_ground:
  assumes "y_step F hf tp st t = Some st'"
  shows "s_ground st' \<longleftrightarrow> s_ground st \<or> pushed_down F hf tp st t"
  using assms
  by (cases t) (auto simp: y_step_def pushed_down_def Let_def split: option.splits if_splits)

lemma scan_tiles_take_Suc:
  assumes "f st t = Some st1"
  shows "scan_tiles f st (take (Suc k) (t # ts)) = scan_tiles f st1 (take k ts)"
  using assms by simp

lemma y_scan_ground:
  assumes "scan_tiles (y_step F hf tp) st ts = Some st'"
  shows "s_ground st' \<longleftrightarrow>
           s_ground st \<or>
           (\<exists>k < length ts. \<exists>sk. scan_tiles (y_step F hf tp) st (take k ts) = Some sk \<and>
                                 pushed_down F hf tp sk (ts ! k))"
  using assms
proof (induction ts arbitrary: st)
  case Nil
  then show ?case by simp
next
  case (Cons t ts)
  from Cons.prems obtain st1 where s1: "y_step F hf tp st t = Some st1"
    and rest: "scan_tiles (y_step F hf tp) st1 ts = Some st'"
    by (auto split: option.splits)
  let ?Q = "\<lambda>s xs. \<exists>k < length xs. \<exists>sk. scan_tiles (y_step F hf tp) s (take k xs) = Some sk \<and>
                                 pushed_down F hf tp sk (xs ! k)"
  have ih: "s_ground st' \<longleftrightarrow> s_ground st1 \<or> ?Q st1 ts" by (rule Cons.IH[OF rest])
  have g1: "s_ground st1 \<longleftrightarrow> s_ground st \<or> pushed_down F hf tp st t" by (rule y_step_ground[OF s1])
  have split: "?Q st (t # ts) \<longleftrightarrow> pushed_down F hf tp st t \<or> ?Q st1 ts"
  proof
    assume "?Q st (t # ts)"
    then obtain k sk where k: "k < length (t # ts)"
      and sk: "scan_tiles (y_step F hf tp) st (take k (t # ts)) = Some sk"
      and pd: "pushed_down F hf tp sk ((t # ts) ! k)" by blast
    show "pushed_down F hf tp st t \<or> ?Q st1 ts"
    proof (cases k)
      case 0
      with sk pd show ?thesis by simp
    next
      case (Suc j)
      with k sk pd s1 have "j < length ts" "scan_tiles (y_step F hf tp) st1 (take j ts) = Some sk"
        "pushed_down F hf tp sk (ts ! j)" by simp_all
      then show ?thesis by blast
    qed
  next
    assume "pushed_down F hf tp st t \<or> ?Q st1 ts"
    then show "?Q st (t # ts)"
    proof
      assume "pushed_down F hf tp st t"
      then have "0 < length (t # ts) \<and> scan_tiles (y_step F hf tp) st (take 0 (t # ts)) = Some st \<and>
                 pushed_down F hf tp st ((t # ts) ! 0)" by simp
      then show ?thesis by blast
    next
      assume "?Q st1 ts"
      then obtain j sk where "j < length ts" "scan_tiles (y_step F hf tp) st1 (take j ts) = Some sk"
        "pushed_down F hf tp sk (ts ! j)" by blast
      with s1 have "Suc j < length (t # ts) \<and>
           scan_tiles (y_step F hf tp) st (take (Suc j) (t # ts)) = Some sk \<and>
           pushed_down F hf tp sk ((t # ts) ! Suc j)" by simp
      then show ?thesis by blast
    qed
  qed
  show ?case using ih g1 split by blast
qed

lemma get_pos_dense_val [simp]: "get_pos (p\<lparr>dense_val := xs\<rparr>) e = get_pos p e"
  by (simp add: get_pos_def Let_def)

lemma get_pos_store_scan [simp]:
  "get_pos (tr (store_scan ecs ti vi ci st)) e = get_pos (tr ecs) e"
  "get_pos (vel (store_scan ecs ti vi ci st)) e = get_pos (vel ecs) e"
  "get_pos (col (store_scan ecs ti vi ci st)) e = get_pos (col ecs) e"
  by (simp_all add: store_scan_def)

lemma same_keys_refl [simp]: "same_keys p p"
  by (simp add: same_keys_def)

lemma same_frame_refl [simp]: "same_frame ecs ecs"
  by (simp add: same_frame_def)

lemma same_frame_trans: "same_frame a b \<Longrightarrow> same_frame b c \<Longrightarrow> same_frame a c"
  by (simp add: same_frame_def same_keys_def)

lemma same_keys_get_pos: "same_keys p p' \<Longrightarrow> get_pos p' e = get_pos p e"
  by (simp add: same_keys_def get_pos_def Let_def)

lemma get_None_iff: "get p e = None \<longleftrightarrow> get_pos p e = None"
  by (simp add: get_def)

lemma same_frame_malformed: "same_frame ecs ecs' \<Longrightarrow> malformed ecs' e = malformed ecs e"
  by (auto simp: malformed_def get_None_iff same_frame_def same_keys_get_pos)

lemma get_pos_owner: "get_pos p e = Some d \<Longrightarrow> d < length (dense_idx p) \<and> dense_idx p ! d = ent_idx e"
  by (auto simp: get_pos_def Let_def split: if_splits)

lemma get_pos_same_idx: "ent_idx e = ent_idx e' \<Longrightarrow> get_pos p e = get_pos p e'"
  by (simp add: get_pos_def)

lemma same_frame_store_scan: "same_frame ecs (store_scan ecs ti vi ci st)"
  by (simp add: same_frame_def same_keys_def store_scan_def)

lemma get_update_other:
  assumes "get_pos p e \<noteq> Some i"
  shows "get (p\<lparr>dense_val := (dense_val p)[i := x]\<rparr>) e = get p e"
  using assms by (cases "get_pos p e") (simp_all add: get_def)

lemma store_scan_other:
  assumes "get_pos (tr ecs) e \<noteq> Some ti" "get_pos (vel ecs) e \<noteq> Some vi" "get_pos (col ecs) e \<noteq> Some ci"
  shows "get (tr (store_scan ecs ti vi ci st)) e = get (tr ecs) e \<and>
         get (vel (store_scan ecs ti vi ci st)) e = get (vel ecs) e \<and>
         get (col (store_scan ecs ti vi ci st)) e = get (col ecs) e"
  using assms by (simp add: store_scan_def get_update_other)

lemma rows_apart:
  assumes "ent_idx e \<noteq> ent_idx e'" and "get_pos p e' = Some d"
  shows "get_pos p e \<noteq> Some d"
proof
  assume "get_pos p e = Some d"
  from get_pos_owner[OF this] get_pos_owner[OF assms(2)] assms(1) show False by simp
qed

lemma malformed_rows_apart:
  assumes m: "malformed ecs e"
    and t: "get_pos (tr ecs) e' = Some ti" and v: "get_pos (vel ecs) e' = Some vi"
    and c: "get_pos (col ecs) e' = Some ci"
  shows "get_pos (tr ecs) e \<noteq> Some ti \<and> get_pos (vel ecs) e \<noteq> Some vi \<and> get_pos (col ecs) e \<noteq> Some ci"
proof -
  have ne: "ent_idx e \<noteq> ent_idx e'"
  proof
    assume "ent_idx e = ent_idx e'"
    then have "get_pos (tr ecs) e = Some ti" "get_pos (vel ecs) e = Some vi" "get_pos (col ecs) e = Some ci"
      using t v c by (simp_all add: get_pos_same_idx[of e e'])
    with m show False by (simp add: malformed_def get_None_iff)
  qed
  show ?thesis using rows_apart[OF ne t] rows_apart[OF ne v] rows_apart[OF ne c] by simp
qed

lemma resolve_axis_x_frame:
  assumes "resolve_axis_x F ecs w e' dt = Some (ecs1, w1)"
  shows "same_frame ecs ecs1 \<and>
         (malformed ecs e \<longrightarrow> get (tr ecs1) e = get (tr ecs) e \<and> get (vel ecs1) e = get (vel ecs) e \<and>
                               get (col ecs1) e = get (col ecs) e)"
proof (cases "\<exists>ti vi ci. get_pos (tr ecs) e' = Some ti \<and> get_pos (vel ecs) e' = Some vi \<and>
                          get_pos (col ecs) e' = Some ci")
  case False
  then have "ecs1 = ecs" using assms
    by (auto simp: resolve_axis_x_def split: option.splits)
  then show ?thesis by simp
next
  case True
  then obtain ti vi ci where p: "get_pos (tr ecs) e' = Some ti" "get_pos (vel ecs) e' = Some vi"
    "get_pos (col ecs) e' = Some ci" by blast
  with assms obtain st where e1: "ecs1 = store_scan ecs ti vi ci st"
    by (auto simp: resolve_axis_x_def Let_def split: option.splits)
  show ?thesis
    using malformed_rows_apart[OF _ p, of e] store_scan_other[of ecs e ti vi ci st]
    by (auto simp: e1 same_frame_store_scan)
qed

lemma resolve_axis_y_frame:
  assumes "resolve_axis_y F ecs w e' dt = Some (ecs1, w1)"
  shows "same_frame ecs ecs1 \<and>
         (malformed ecs e \<longrightarrow> get (tr ecs1) e = get (tr ecs) e \<and> get (vel ecs1) e = get (vel ecs) e \<and>
                               get (col ecs1) e = get (col ecs) e)"
proof (cases "\<exists>ti vi ci. get_pos (tr ecs) e' = Some ti \<and> get_pos (vel ecs) e' = Some vi \<and>
                          get_pos (col ecs) e' = Some ci")
  case False
  then have "ecs1 = ecs" using assms
    by (auto simp: resolve_axis_y_def split: option.splits)
  then show ?thesis by simp
next
  case True
  then obtain ti vi ci where p: "get_pos (tr ecs) e' = Some ti" "get_pos (vel ecs) e' = Some vi"
    "get_pos (col ecs) e' = Some ci" by blast
  with assms obtain st where e1: "ecs1 = store_scan ecs ti vi ci st"
    by (auto simp: resolve_axis_y_def Let_def split: option.splits)
  show ?thesis
    using malformed_rows_apart[OF _ p, of e] store_scan_other[of ecs e ti vi ci st]
    by (auto simp: e1 same_frame_store_scan)
qed

lemma resolve_loop_frame:
  assumes "resolve_loop F dt ecs w is = Some (ecs', w')" and "malformed ecs e"
  shows "same_frame ecs ecs' \<and> get (tr ecs') e = get (tr ecs) e \<and> get (vel ecs') e = get (vel ecs) e \<and>
         get (col ecs') e = get (col ecs) e"
  using assms
proof (induction "is" arbitrary: ecs w)
  case Nil
  then show ?case by simp
next
  case (Cons i "is")
  from Cons.prems(1) obtain e' where ea: "entity_at (col ecs) i (reg ecs) = Some e'"
    by (auto split: option.splits)
  show ?case
  proof (cases "\<not> alive (reg ecs) e' \<or> get_pos (tr ecs) e' = None \<or> get_pos (vel ecs) e' = None")
    case True
    with Cons.prems(1) ea have "resolve_loop F dt ecs w is = Some (ecs', w')"
      by (auto split: if_splits)
    from Cons.IH[OF this Cons.prems(2)] show ?thesis .
  next
    case False
    with Cons.prems(1) ea obtain ecs1 w1 ecs2 w2 where
      x: "resolve_axis_x F ecs w e' dt = Some (ecs1, w1)" and
      y: "resolve_axis_y F ecs1 w1 e' dt = Some (ecs2, w2)" and
      r: "resolve_loop F dt ecs2 w2 is = Some (ecs', w')"
      by (auto split: option.splits if_splits)
    from resolve_axis_x_frame[OF x, of e] Cons.prems(2) have
      f1: "same_frame ecs ecs1" and g1: "get (tr ecs1) e = get (tr ecs) e"
      "get (vel ecs1) e = get (vel ecs) e" "get (col ecs1) e = get (col ecs) e" by auto
    have m1: "malformed ecs1 e" using same_frame_malformed[OF f1] Cons.prems(2) by simp
    from resolve_axis_y_frame[OF y, of e] m1 have
      f2: "same_frame ecs1 ecs2" and g2: "get (tr ecs2) e = get (tr ecs1) e"
      "get (vel ecs2) e = get (vel ecs1) e" "get (col ecs2) e = get (col ecs1) e" by auto
    have m2: "malformed ecs2 e" using same_frame_malformed[OF f2] m1 by simp
    from Cons.IH[OF r m2] have
      f3: "same_frame ecs2 ecs'" and g3: "get (tr ecs') e = get (tr ecs2) e"
      "get (vel ecs') e = get (vel ecs2) e" "get (col ecs') e = get (col ecs2) e" by auto
    show ?thesis
      using same_frame_trans[OF same_frame_trans[OF f1 f2] f3] g1 g2 g3 by simp
  qed
qed

lemma pool_inv_dense_val:
  "pool_inv p \<Longrightarrow> length xs = length (dense_val p) \<Longrightarrow> pool_inv (p\<lparr>dense_val := xs\<rparr>)"
  by (simp add: pool_inv_def)

lemma entity_at_row:
  assumes "entity_at p i r = Some e"
  shows "i < length (dense_idx p) \<and> ent_idx e = dense_idx p ! i \<and> alive r e"
  using assms by (auto simp: entity_at_def Let_def alive_make_ent split: if_splits)

lemma get_pos_row:
  assumes "pool_inv p" and "i < length (dense_idx p)" and "ent_idx e = dense_idx p ! i"
  shows "get_pos p e = Some i"
  using assms by (auto simp: pool_inv_def get_pos_def Let_def)

lemma gravity_loop_rows:
  assumes "gravity_loop F dt ecs is = Some ecs'" and "pool_inv (vel ecs)" and "distinct is"
  shows "reg ecs' = reg ecs \<and> tr ecs' = tr ecs \<and> col ecs' = col ecs \<and>
         same_keys (vel ecs) (vel ecs') \<and>
         (\<forall>d < length (dense_val (vel ecs)).
            dense_val (vel ecs') ! d =
              (if d \<in> set is then gravity_row F dt (dense_val (vel ecs) ! d)
               else dense_val (vel ecs) ! d))"
  using assms
proof (induction "is" arbitrary: ecs)
  case Nil
  then show ?case by simp
next
  case (Cons i "is")
  from Cons.prems(1) obtain e where ea: "entity_at (vel ecs) i (reg ecs) = Some e"
    by (auto split: option.splits)
  from entity_at_row[OF ea] have i: "i < length (dense_idx (vel ecs))"
    and idx: "ent_idx e = dense_idx (vel ecs) ! i" and al: "alive (reg ecs) e" by auto
  have gp: "get_pos (vel ecs) e = Some i" by (rule get_pos_row[OF Cons.prems(2) i idx])
  define ecs1 where "ecs1 = ecs\<lparr>vel := (vel ecs)\<lparr>dense_val :=
                               (dense_val (vel ecs))[i := gravity_row F dt (dense_val (vel ecs) ! i)]\<rparr>\<rparr>"
  have run: "gravity_loop F dt ecs1 is = Some ecs'"
    using Cons.prems(1) ea al gp by (simp add: ecs1_def)
  have inv1: "pool_inv (vel ecs1)"
    using Cons.prems(2) by (simp add: ecs1_def pool_inv_dense_val)
  from Cons.prems(3) have d: "distinct is" and ni: "i \<notin> set is" by simp_all
  from Cons.IH[OF run inv1 d] have
    a: "reg ecs' = reg ecs1" "tr ecs' = tr ecs1" "col ecs' = col ecs1" "same_keys (vel ecs1) (vel ecs')"
    and b: "\<forall>d < length (dense_val (vel ecs1)).
            dense_val (vel ecs') ! d =
              (if d \<in> set is then gravity_row F dt (dense_val (vel ecs1) ! d)
               else dense_val (vel ecs1) ! d)" by auto
  have c: "dense_val (vel ecs') ! d =
              (if d \<in> set (i # is) then gravity_row F dt (dense_val (vel ecs) ! d)
               else dense_val (vel ecs) ! d)" if "d < length (dense_val (vel ecs))" for d
  proof -
    from that have "d < length (dense_val (vel ecs1))" by (simp add: ecs1_def)
    with b have "dense_val (vel ecs') ! d =
              (if d \<in> set is then gravity_row F dt (dense_val (vel ecs1) ! d)
               else dense_val (vel ecs1) ! d)" by blast
    moreover have "d \<noteq> i" if "d \<in> set is" using that ni by auto
    ultimately show ?thesis using that by (cases "d = i") (auto simp: ecs1_def)
  qed
  show ?case using a c by (simp add: ecs1_def same_keys_def)
qed

lemma falling_get_pos:
  "get_pos (tr falling_ecs) (make_ent 0 1) = Some 0"
  "get_pos (vel falling_ecs) (make_ent 0 1) = Some 0"
  "get_pos (col falling_ecs) (make_ent 0 1) = Some 0"
  "get_pos (tr falling_ecs) (make_ent 1 1) = None"
  "get_pos (vel falling_ecs) (make_ent 1 1) = Some 1"
  "get_pos (col falling_ecs) (make_ent 1 1) = None"
  by (simp_all add: get_pos_def falling_ecs_def)

lemma y_scan_range_eval:
  "scan_range exact_ops \<lparr>vx = Some 48, vy = Some 72\<rparr> \<lparr>vx = Some 8, vy = Some 8\<rparr> 32 =
     [(0,1),(1,1),(2,1),(0,2),(1,2),(2,2),(0,3),(1,3),(2,3)]"
  by (simp add: scan_range_def tile_range_def eval_simps upto.simps)

lemma y_step_miss:
  assumes "0 \<le> tx" "tx < 32" "0 \<le> ty" "ty < 32" "\<not> (tx = 1 \<and> ty = 2)"
  shows "y_step F hf 32 \<lparr>s_pos = p, s_vel = v, s_ground = g, s_world = floor_world\<rparr> (tx, ty) =
         Some \<lparr>s_pos = p, s_vel = v, s_ground = g, s_world = floor_world\<rparr>"
  using assms by (auto simp: y_step_def floor_world_get solid_def)

lemma y_start_eval:
  "y_start exact_ops (dense_val (tr falling_ecs) ! 0) (dense_val (vel falling_ecs) ! 0)
      (dense_val (col falling_ecs) ! 0) floor_world (Some (1 / 2)) =
   \<lparr>s_pos = \<lparr>vx = Some 48, vy = Some 72\<rparr>, s_vel = \<lparr>vx = Some 0, vy = Some 64\<rparr>,
    s_ground = False, s_world = floor_world\<rparr>"
  by (simp add: y_start_def falling_ecs_def exact_ops_def lift2_def)

lemma y_step_hit:
  "y_step exact_ops \<lparr>vx = Some 8, vy = Some 8\<rparr> 32
     \<lparr>s_pos = \<lparr>vx = Some 48, vy = Some 72\<rparr>, s_vel = \<lparr>vx = Some 0, vy = Some 64\<rparr>,
      s_ground = False, s_world = floor_world\<rparr> (1, 2) =
   Some \<lparr>s_pos = \<lparr>vx = Some 48, vy = Some 56\<rparr>, s_vel = \<lparr>vx = Some 0, vy = Some 0\<rparr>,
         s_ground = True, s_world = floor_world\<rparr>"
  by (simp add: y_step_def floor_world_get eval_simps)

lemma y_scan_eval:
  "scan_tiles (y_step exact_ops \<lparr>vx = Some 8, vy = Some 8\<rparr> 32)
     \<lparr>s_pos = \<lparr>vx = Some 48, vy = Some 72\<rparr>, s_vel = \<lparr>vx = Some 0, vy = Some 64\<rparr>,
      s_ground = False, s_world = floor_world\<rparr>
     [(0,1),(1,1),(2,1),(0,2),(1,2),(2,2),(0,3),(1,3),(2,3)] =
   Some \<lparr>s_pos = \<lparr>vx = Some 48, vy = Some 56\<rparr>, s_vel = \<lparr>vx = Some 0, vy = Some 0\<rparr>,
         s_ground = True, s_world = floor_world\<rparr>"
  by (simp add: y_step_miss y_step_hit)

lemma resolve_y_eval:
  "resolve_axis_y exact_ops falling_ecs floor_world (make_ent 0 1) (Some (1 / 2)) =
     Some (landed_ecs, floor_world)"
proof -
  have hf: "half (dense_val (col falling_ecs) ! 0) = \<lparr>vx = Some 8, vy = Some 8\<rparr>"
    and tp: "tile_px floor_world = 32"
    by (simp_all add: falling_ecs_def floor_world_def)
  have st: "store_scan falling_ecs 0 0 0
      \<lparr>s_pos = \<lparr>vx = Some 48, vy = Some 56\<rparr>, s_vel = \<lparr>vx = Some 0, vy = Some 0\<rparr>,
         s_ground = True, s_world = floor_world\<rparr> = landed_ecs"
    by (simp add: store_scan_def falling_ecs_def landed_ecs_def)
  show ?thesis
    by (simp add: resolve_axis_y_def falling_get_pos y_start_eval hf tp y_scan_range_eval
          y_step_miss y_step_hit st Let_def)
qed

lemma x_step_miss:
  assumes "0 \<le> tx" "tx < 32" "0 \<le> ty" "ty < 32" "\<not> (tx = 1 \<and> ty = 2)"
  shows "x_step F hf 32 \<lparr>s_pos = p, s_vel = v, s_ground = g, s_world = floor_world\<rparr> (tx, ty) =
         Some \<lparr>s_pos = p, s_vel = v, s_ground = g, s_world = floor_world\<rparr>"
  using assms by (auto simp: x_step_def floor_world_get solid_def)

lemma gravity_eval:
  "gravity_loop exact_ops (Some (1 / 64)) falling_ecs [0..<size_pool (vel falling_ecs)] =
     Some (falling_ecs\<lparr>vel := \<lparr>dense_idx = [0, 1],
             dense_val = [\<lparr>velocity = \<lparr>vx = Some 0, vy = Some (331 / 4)\<rparr>\<rparr>,
                          \<lparr>velocity = \<lparr>vx = Some 0, vy = Some (75 / 4)\<rparr>\<rparr>],
             sparse = [0, 1]\<rparr>\<rparr>)"
proof -
  have n: "[0..<size_pool (vel falling_ecs)] = [0, 1]"
    by (simp add: size_pool_def falling_ecs_def upt_rec)
  show ?thesis
    unfolding n
    by (simp add: falling_ecs_def entity_at_def alive_make_ent get_pos_def gravity_row_def
          exact_ops_def lift2_def rel2_def)
qed

lemma g_get_pos:
  "get_pos (tr falling_ecs_g) (make_ent 0 1) = Some 0"
  "get_pos (vel falling_ecs_g) (make_ent 0 1) = Some 0"
  "get_pos (col falling_ecs_g) (make_ent 0 1) = Some 0"
  by (simp_all add: get_pos_def falling_ecs_g_def falling_ecs_def)

lemma x_range_eval:
  "scan_range exact_ops \<lparr>vx = Some 48, vy = Some 40\<rparr> \<lparr>vx = Some 8, vy = Some 8\<rparr> 32 =
     [(0,0),(1,0),(2,0),(0,1),(1,1),(2,1),(0,2),(1,2),(2,2)]"
  by (simp add: scan_range_def tile_range_def eval_simps upto.simps)

lemma y_range_eval2:
  "scan_range exact_ops \<lparr>vx = Some 48, vy = Some (10571 / 256)\<rparr> \<lparr>vx = Some 8, vy = Some 8\<rparr> 32 =
     [(0,0),(1,0),(2,0),(0,1),(1,1),(2,1),(0,2),(1,2),(2,2)]"
  by (simp add: scan_range_def tile_range_def eval_simps upto.simps)

lemma x_step_12:
  "x_step exact_ops \<lparr>vx = Some 8, vy = Some 8\<rparr> 32
     \<lparr>s_pos = \<lparr>vx = Some 48, vy = Some 40\<rparr>, s_vel = v, s_ground = g, s_world = floor_world\<rparr> (1, 2) =
   Some \<lparr>s_pos = \<lparr>vx = Some 48, vy = Some 40\<rparr>, s_vel = v, s_ground = g, s_world = floor_world\<rparr>"
  by (simp add: x_step_def floor_world_get eval_simps)

lemma y_step_12:
  "y_step exact_ops \<lparr>vx = Some 8, vy = Some 8\<rparr> 32
     \<lparr>s_pos = \<lparr>vx = Some 48, vy = Some (10571 / 256)\<rparr>, s_vel = v, s_ground = g, s_world = floor_world\<rparr> (1, 2) =
   Some \<lparr>s_pos = \<lparr>vx = Some 48, vy = Some (10571 / 256)\<rparr>, s_vel = v, s_ground = g, s_world = floor_world\<rparr>"
  by (simp add: y_step_def floor_world_get eval_simps)

lemma resolve_x_eval:
  "resolve_axis_x exact_ops falling_ecs_g floor_world (make_ent 0 1) (Some (1 / 64)) =
     Some (falling_ecs_g, floor_world)"
proof -
  have hf: "half (dense_val (col falling_ecs_g) ! 0) = \<lparr>vx = Some 8, vy = Some 8\<rparr>"
    and tp: "tile_px floor_world = 32"
    by (simp_all add: falling_ecs_g_def falling_ecs_def floor_world_def)
  have s0: "x_start exact_ops (dense_val (tr falling_ecs_g) ! 0) (dense_val (vel falling_ecs_g) ! 0)
      (dense_val (col falling_ecs_g) ! 0) floor_world (Some (1 / 64)) =
   \<lparr>s_pos = \<lparr>vx = Some 48, vy = Some 40\<rparr>, s_vel = \<lparr>vx = Some 0, vy = Some (331 / 4)\<rparr>,
    s_ground = False, s_world = floor_world\<rparr>"
    by (simp add: x_start_def falling_ecs_g_def falling_ecs_def exact_ops_def lift2_def)
  have st: "store_scan falling_ecs_g 0 0 0
      \<lparr>s_pos = \<lparr>vx = Some 48, vy = Some 40\<rparr>, s_vel = \<lparr>vx = Some 0, vy = Some (331 / 4)\<rparr>,
    s_ground = False, s_world = floor_world\<rparr> = falling_ecs_g"
    by (simp add: store_scan_def falling_ecs_g_def falling_ecs_def)
  show ?thesis
    by (simp add: resolve_axis_x_def g_get_pos s0 hf tp x_range_eval x_step_miss x_step_12 st Let_def)
qed

lemma resolve_y_eval2:
  "resolve_axis_y exact_ops falling_ecs_g floor_world (make_ent 0 1) (Some (1 / 64)) =
     Some (falling_ecs_after, floor_world)"
proof -
  have hf: "half (dense_val (col falling_ecs_g) ! 0) = \<lparr>vx = Some 8, vy = Some 8\<rparr>"
    and tp: "tile_px floor_world = 32"
    by (simp_all add: falling_ecs_g_def falling_ecs_def floor_world_def)
  have s0: "y_start exact_ops (dense_val (tr falling_ecs_g) ! 0) (dense_val (vel falling_ecs_g) ! 0)
      (dense_val (col falling_ecs_g) ! 0) floor_world (Some (1 / 64)) =
   \<lparr>s_pos = \<lparr>vx = Some 48, vy = Some (10571 / 256)\<rparr>, s_vel = \<lparr>vx = Some 0, vy = Some (331 / 4)\<rparr>,
    s_ground = False, s_world = floor_world\<rparr>"
    by (simp add: y_start_def falling_ecs_g_def falling_ecs_def exact_ops_def lift2_def)
  have st: "store_scan falling_ecs_g 0 0 0
      \<lparr>s_pos = \<lparr>vx = Some 48, vy = Some (10571 / 256)\<rparr>, s_vel = \<lparr>vx = Some 0, vy = Some (331 / 4)\<rparr>,
    s_ground = False, s_world = floor_world\<rparr> = falling_ecs_after"
    by (simp add: store_scan_def falling_ecs_g_def falling_ecs_def falling_ecs_after_def)
  show ?thesis
    by (simp add: resolve_axis_y_def g_get_pos s0 hf tp y_range_eval2 y_step_miss y_step_12 st Let_def)
qed

lemma sys_physics_eval:
  "sys_physics exact_ops falling_ecs floor_world (Some (1 / 64)) = Some (falling_ecs_after, floor_world)"
proof -
  have n: "[0..<size_pool (col falling_ecs_g)] = [0]"
    by (simp add: size_pool_def falling_ecs_g_def falling_ecs_def)
  have ea: "entity_at (col falling_ecs_g) 0 (reg falling_ecs_g) = Some (make_ent 0 1)"
    by (simp add: entity_at_def falling_ecs_g_def falling_ecs_def)
  have al: "alive (reg falling_ecs_g) (make_ent 0 1)"
    by (simp add: alive_make_ent falling_ecs_g_def falling_ecs_def)
  show ?thesis
    by (simp add: sys_physics_def gravity_eval falling_ecs_g_def [symmetric] n ea al g_get_pos
          resolve_x_eval resolve_y_eval2)
qed

lemma resolve_axis_x_skip:
  assumes "malformed ecs e"
  shows "resolve_axis_x F ecs world e dt = Some (ecs, world)"
  using assms by (auto simp: malformed_def get_None_iff resolve_axis_x_def split: option.splits)

lemma resolve_axis_y_skip:
  assumes "malformed ecs e"
  shows "resolve_axis_y F ecs world e dt = Some (ecs, world)"
  using assms by (auto simp: malformed_def get_None_iff resolve_axis_y_def split: option.splits)

lemma malformed_same_idx: "ent_idx e = ent_idx e' \<Longrightarrow> malformed ecs e = malformed ecs e'"
  by (simp add: malformed_def get_same_idx[of e e'])

lemma resolve_loop_skip_row:
  assumes m: "malformed ecs e" and row: "row_of (col ecs) e i"
    and reg: "unat (ent_idx e) < length (gen (reg ecs))"
  shows "resolve_loop F dt ecs world (i # is) = resolve_loop F dt ecs world is"
proof -
  define e' where "e' = make_ent (ent_idx e) (gen (reg ecs) ! unat (ent_idx e))"
  have ea: "entity_at (col ecs) i (reg ecs) = Some e'"
    using row reg by (simp add: entity_at_def row_of_def e'_def Let_def)
  have m': "malformed ecs e'" using m malformed_same_idx[of e' e ecs] by (simp add: e'_def)
  show ?thesis
  proof (cases "\<not> alive (reg ecs) e' \<or> get_pos (tr ecs) e' = None \<or> get_pos (vel ecs) e' = None")
    case True
    then show ?thesis using ea by auto
  next
    case False
    then show ?thesis
      using ea resolve_axis_x_skip[OF m'] resolve_axis_y_skip[OF m'] by simp
  qed
qed

lemma same_frame_row_of: "same_frame ecs ecs' \<Longrightarrow> row_of (col ecs') e i = row_of (col ecs) e i"
  by (simp add: same_frame_def same_keys_def row_of_def)

lemma resolve_loop_skip:
  assumes "malformed ecs e" and "unat (ent_idx e) < length (gen (reg ecs))"
  shows "resolve_loop F dt ecs world is =
         resolve_loop F dt ecs world (filter (\<lambda>i. \<not> row_of (col ecs) e i) is)"
  using assms
proof (induction "is" arbitrary: ecs world)
  case Nil
  then show ?case by simp
next
  case (Cons i "is")
  show ?case
  proof (cases "row_of (col ecs) e i")
    case True
    from resolve_loop_skip_row[OF Cons.prems(1) True Cons.prems(2)]
    have "resolve_loop F dt ecs world (i # is) = resolve_loop F dt ecs world is" .
    also have "\<dots> = resolve_loop F dt ecs world (filter (\<lambda>i. \<not> row_of (col ecs) e i) is)"
      by (rule Cons.IH[OF Cons.prems])
    finally show ?thesis using True by simp
  next
    case False
    then have f: "filter (\<lambda>i. \<not> row_of (col ecs) e i) (i # is) =
                  i # filter (\<lambda>i. \<not> row_of (col ecs) e i) is" by simp
    have tail: "resolve_loop F dt ecs2 w2 is =
                resolve_loop F dt ecs2 w2 (filter (\<lambda>i. \<not> row_of (col ecs) e i) is)"
      if "same_frame ecs ecs2" for ecs2 w2
    proof -
      have "malformed ecs2 e" using same_frame_malformed[OF that] Cons.prems(1) by simp
      moreover have "unat (ent_idx e) < length (gen (reg ecs2))"
        using that Cons.prems(2) by (simp add: same_frame_def)
      ultimately have "resolve_loop F dt ecs2 w2 is =
                resolve_loop F dt ecs2 w2 (filter (\<lambda>i. \<not> row_of (col ecs2) e i) is)"
        by (rule Cons.IH)
      then show ?thesis by (simp add: same_frame_row_of[OF that])
    qed
    show ?thesis
    proof (cases "entity_at (col ecs) i (reg ecs)")
      case None
      then show ?thesis unfolding f by simp
    next
      case (Some e')
      show ?thesis
      proof (cases "\<not> alive (reg ecs) e' \<or> get_pos (tr ecs) e' = None \<or> get_pos (vel ecs) e' = None")
        case True
        then show ?thesis unfolding f using Some tail[OF same_frame_refl] by auto
      next
        case False
        then obtain ti vi where ok: "alive (reg ecs) e'" "get_pos (tr ecs) e' = Some ti"
          "get_pos (vel ecs) e' = Some vi" by auto
        show ?thesis
        proof (cases "resolve_axis_x F ecs world e' dt")
          case None
          then show ?thesis unfolding f using Some ok by simp
        next
          case sx: (Some r1)
          obtain ecs1 w1 where r1: "r1 = (ecs1, w1)" by (cases r1) auto
          from resolve_axis_x_frame[OF sx[unfolded r1], of e] have f1: "same_frame ecs ecs1" by simp
          show ?thesis
          proof (cases "resolve_axis_y F ecs1 w1 e' dt")
            case None
            then show ?thesis unfolding f using Some ok sx r1 by simp
          next
            case sy: (Some r2)
            obtain ecs2 w2 where r2: "r2 = (ecs2, w2)" by (cases r2) auto
            from resolve_axis_y_frame[OF sy[unfolded r2], of e] have f2: "same_frame ecs1 ecs2" by simp
            from tail[OF same_frame_trans[OF f1 f2], of w2]
            show ?thesis unfolding f using Some ok sx r1 sy r2 by simp
          qed
        qed
      qed
    qed
  qed
qed

lemma resolve_loop_all_malformed:
  assumes "\<forall>i \<in> set is. \<exists>e. row_of (col ecs) e i \<and> unat (ent_idx e) < length (gen (reg ecs)) \<and>
                                malformed ecs e"
  shows "resolve_loop F dt ecs world is = Some (ecs, world)"
  using assms
proof (induction "is")
  case Nil
  then show ?case by simp
next
  case (Cons i "is")
  from Cons.prems obtain e where e: "row_of (col ecs) e i" "unat (ent_idx e) < length (gen (reg ecs))"
    "malformed ecs e" by auto
  from resolve_loop_skip_row[OF e(3) e(1) e(2)] Cons.IH Cons.prems show ?case by simp
qed

lemma gravity_loop_total:
  assumes "registered (reg ecs) (vel ecs)" and "\<forall>i \<in> set is. i < size_pool (vel ecs)"
  shows "\<exists>ecs'. gravity_loop F dt ecs is = Some ecs'"
  using assms
proof (induction "is" arbitrary: ecs)
  case Nil
  then show ?case by simp
next
  case (Cons i "is")
  from Cons.prems have i: "i < length (dense_idx (vel ecs))" by (simp add: size_pool_def)
  with Cons.prems(1) have "unat (dense_idx (vel ecs) ! i) < length (gen (reg ecs))"
    by (simp add: registered_def list_all_length)
  with i obtain e where ea: "entity_at (vel ecs) i (reg ecs) = Some e"
    by (simp add: entity_at_def Let_def)
  have rest: "\<forall>i \<in> set is. i < size_pool (vel ecs)" using Cons.prems(2) by simp
  show ?case
  proof (cases "\<not> alive (reg ecs) e \<or> get_pos (vel ecs) e = None")
    case True
    with ea Cons.IH[OF Cons.prems(1) rest] show ?thesis by auto
  next
    case False
    then obtain vi where vi: "get_pos (vel ecs) e = Some vi" by auto
    define ecs1 where "ecs1 = ecs\<lparr>vel := (vel ecs)\<lparr>dense_val :=
                               (dense_val (vel ecs))[vi := gravity_row F dt (dense_val (vel ecs) ! vi)]\<rparr>\<rparr>"
    have "registered (reg ecs1) (vel ecs1)" using Cons.prems(1) by (simp add: ecs1_def registered_def)
    moreover have "\<forall>i \<in> set is. i < size_pool (vel ecs1)" using rest by (simp add: ecs1_def size_pool_def)
    ultimately obtain ecs' where "gravity_loop F dt ecs1 is = Some ecs'"
      using Cons.IH[of ecs1] by blast
    then show ?thesis using ea False vi by (simp add: ecs1_def)
  qed
qed

lemma partial_gravity:
  "gravity_loop exact_ops (Some (1 / 64)) partial_ecs [0..<size_pool (vel partial_ecs)] =
     Some partial_ecs_after"
proof -
  have n: "[0..<size_pool (vel partial_ecs)] = [0]"
    by (simp add: size_pool_def partial_ecs_def)
  show ?thesis
    unfolding n
    by (simp add: partial_ecs_after_def partial_ecs_def entity_at_def alive_make_ent get_pos_def
          gravity_row_def exact_ops_def lift2_def rel2_def)
qed

lemma partial_get_pos:
  "get_pos (tr partial_ecs) (make_ent 0 1) = Some 0"
  "get_pos (vel partial_ecs) (make_ent 0 1) = None"
  "get_pos (col partial_ecs) (make_ent 0 1) = Some 0"
  by (simp_all add: get_pos_def partial_ecs_def)

section \<open>Claims about the physics\<close>

text \<open>
  Claim C8. When \<^verbatim>\<open>resolve_axis_y\<close> processes an entity (it has the three components), the
  scan starts with the ground flag false, whatever it was before, and the flag stored
  at the end is true if and only if, at some tile \<open>k\<close> of the scan, the entity in the
  state the scan had reached overlapped that solid tile while its \<open>v.y\<close> was positive:
  the case in which the entity is pushed out upwards.
\<close>

theorem on_ground_semantics:
  assumes run: "resolve_axis_y F ecs world e dt = Some (ecs', world')"
    and t: "get_pos (tr ecs) e = Some ti" and v: "get_pos (vel ecs) e = Some vi"
    and c: "get_pos (col ecs) e = Some ci" and len: "ci < length (dense_val (col ecs))"
    and st0: "st0 = y_start F (dense_val (tr ecs) ! ti) (dense_val (vel ecs) ! vi)
                       (dense_val (col ecs) ! ci) world dt"
    and hf: "hf = half (dense_val (col ecs) ! ci)"
    and ts: "ts = scan_range F (s_pos st0) hf (tile_px world)"
  shows "\<not> s_ground st0 \<and>
         (\<exists>c'. get (col ecs') e = Some c' \<and>
            (on_ground c' \<longleftrightarrow>
               (\<exists>k < length ts. \<exists>sk.
                   scan_tiles (y_step F hf (tile_px world)) st0 (take k ts) = Some sk \<and>
                   pushed_down F hf (tile_px world) sk (ts ! k))))"
proof -
  have g0: "\<not> s_ground st0" by (simp add: st0 y_start_def)
  from run t v c obtain st where
    sc: "scan_tiles (y_step F hf (tile_px world)) st0 ts = Some st"
    and e': "ecs' = store_scan ecs ti vi ci st"
    by (auto simp: resolve_axis_y_def Let_def st0 hf ts split: option.splits)
  have "get (col ecs') e = Some ((dense_val (col ecs) ! ci)\<lparr>on_ground := s_ground st\<rparr>)"
    using c len by (simp add: get_def e') (simp add: store_scan_def)
  moreover have "on_ground ((dense_val (col ecs) ! ci)\<lparr>on_ground := s_ground st\<rparr>) = s_ground st"
    by simp
  ultimately show ?thesis using y_scan_ground[OF sc] g0 by auto
qed

text \<open>
  The witness: entity 0 of the scene moves down by 32 px into the solid tile \<open>(1, 2)\<close>;
  it is put back on top of the tile and its flag is set.
\<close>

theorem on_ground_semantics_witness:
  "resolve_axis_y exact_ops falling_ecs floor_world (make_ent 0 1) (Some (1 / 2)) =
     Some (landed_ecs, floor_world) \<and>
   get (col falling_ecs) (make_ent 0 1) = Some \<lparr>half = \<lparr>vx = Some 8, vy = Some 8\<rparr>, on_ground = False\<rparr> \<and>
   get (col landed_ecs) (make_ent 0 1) = Some \<lparr>half = \<lparr>vx = Some 8, vy = Some 8\<rparr>, on_ground = True\<rparr> \<and>
   (\<exists>k < length [(0,1),(1,1),(2,1),(0,2),(1,2),(2,2),(0,3),(1,3),(2,3) :: int \<times> int]. \<exists>sk.
      scan_tiles (y_step exact_ops \<lparr>vx = Some 8, vy = Some 8\<rparr> 32)
        \<lparr>s_pos = \<lparr>vx = Some 48, vy = Some 72\<rparr>, s_vel = \<lparr>vx = Some 0, vy = Some 64\<rparr>,
         s_ground = False, s_world = floor_world\<rparr>
        (take k [(0,1),(1,1),(2,1),(0,2),(1,2),(2,2),(0,3),(1,3),(2,3)]) = Some sk \<and>
      pushed_down exact_ops \<lparr>vx = Some 8, vy = Some 8\<rparr> 32 sk
        ([(0,1),(1,1),(2,1),(0,2),(1,2),(2,2),(0,3),(1,3),(2,3)] ! k))"
proof -
  have len: "0 < length (dense_val (col falling_ecs))" by (simp add: falling_ecs_def)
  have hf: "half (dense_val (col falling_ecs) ! 0) = \<lparr>vx = Some 8, vy = Some 8\<rparr>"
    and tp: "tile_px floor_world = 32"
    by (simp_all add: falling_ecs_def floor_world_def)
  have g0: "get (col falling_ecs) (make_ent 0 1) = Some \<lparr>half = \<lparr>vx = Some 8, vy = Some 8\<rparr>, on_ground = False\<rparr>"
    by (simp add: get_def falling_get_pos) (simp add: falling_ecs_def)
  have g1: "get (col landed_ecs) (make_ent 0 1) = Some \<lparr>half = \<lparr>vx = Some 8, vy = Some 8\<rparr>, on_ground = True\<rparr>"
    by (simp add: get_def get_pos_def landed_ecs_def)
  from on_ground_semantics [OF resolve_y_eval falling_get_pos(1) falling_get_pos(2) falling_get_pos(3)
      len refl refl refl]
  show ?thesis
    using g0 g1 resolve_y_eval
    by (simp add: y_start_eval hf tp y_scan_range_eval)
qed

text \<open>
  Claim C3, as stated: one call of \<^verbatim>\<open>sys_physics\<close> leaves every component of an entity
  that lacks a transform, a velocity or a collider unchanged, its velocity included.
  The gravity pass runs over every row of the velocity pool: entity 1 of the scene has
  a velocity only, and after one tick of 1/64 s its \<open>v.y\<close> is \<open>1200 / 64 = 18.75\<close>
  instead of 0.
\<close>

theorem malformed_unchanged_counterexample:
  "malformed falling_ecs (make_ent 1 1) \<and>
   sys_physics exact_ops falling_ecs floor_world (Some (1 / 64)) = Some (falling_ecs_after, floor_world) \<and>
   get (vel falling_ecs) (make_ent 1 1) = Some \<lparr>velocity = \<lparr>vx = Some 0, vy = Some 0\<rparr>\<rparr> \<and>
   get (vel falling_ecs_after) (make_ent 1 1) = Some \<lparr>velocity = \<lparr>vx = Some 0, vy = Some (75 / 4)\<rparr>\<rparr>"
proof -
  have "malformed falling_ecs (make_ent 1 1)"
    by (simp add: malformed_def get_None_iff falling_get_pos)
  moreover have "get (vel falling_ecs) (make_ent 1 1) = Some \<lparr>velocity = \<lparr>vx = Some 0, vy = Some 0\<rparr>\<rparr>"
    by (simp add: get_def falling_get_pos) (simp add: falling_ecs_def)
  moreover have "get (vel falling_ecs_after) (make_ent 1 1) =
      Some \<lparr>velocity = \<lparr>vx = Some 0, vy = Some (75 / 4)\<rparr>\<rparr>"
    by (simp add: get_def get_pos_def falling_ecs_after_def)
  ultimately show ?thesis using sys_physics_eval by simp
qed

text \<open>
  Claim C3, amended: for an entity \<open>e\<close> of the registry that lacks a transform, a velocity
  or a collider, a tick of \<^verbatim>\<open>sys_physics\<close> is the gravity pass, which always completes,
  followed by the resolution loop over the collider rows of the other entities: a row
  of \<open>e\<close> is passed over, without error. \<^verbatim>\<open>resolve_axis_x\<close> and \<^verbatim>\<open>resolve_axis_y\<close>, called
  on \<open>e\<close>, return at once and change nothing. If every collider row belongs to such an
  entity, the tick completes and leaves the world as it is. Whenever the tick completes,
  the transform and the collider of \<open>e\<close> are unchanged, and its velocity, if it has one,
  has received the gravity update \<open>v.y := min(v.y + 1200 * dt, 3000)\<close> and nothing else.
\<close>

theorem malformed_entity_skipped:
  assumes inv: "pool_inv (vel ecs)" and rv: "registered (reg ecs) (vel ecs)"
    and reg: "unat (ent_idx e) < length (gen (reg ecs))"
    and m: "malformed ecs e"
  shows "(\<exists>ecs1. gravity_loop F dt ecs [0..<size_pool (vel ecs)] = Some ecs1 \<and>
            sys_physics F ecs world dt =
              resolve_loop F dt ecs1 world
                (filter (\<lambda>i. \<not> row_of (col ecs) e i) [0..<size_pool (col ecs)])) \<and>
         resolve_axis_x F ecs world e dt = Some (ecs, world) \<and>
         resolve_axis_y F ecs world e dt = Some (ecs, world) \<and>
         ((\<forall>i < size_pool (col ecs). \<exists>e'. row_of (col ecs) e' i \<and>
               unat (ent_idx e') < length (gen (reg ecs)) \<and> malformed ecs e')
            \<longrightarrow> (\<exists>ecs'. sys_physics F ecs world dt = Some (ecs', world))) \<and>
         (\<forall>ecs' world'. sys_physics F ecs world dt = Some (ecs', world') \<longrightarrow>
            get (tr ecs') e = get (tr ecs) e \<and> get (col ecs') e = get (col ecs) e \<and>
            get (vel ecs') e = map_option (gravity_row F dt) (get (vel ecs) e))"
proof -
  have "\<forall>i \<in> set [0..<size_pool (vel ecs)]. i < size_pool (vel ecs)" by simp
  from gravity_loop_total[OF rv this] obtain ecs1 where
    g: "gravity_loop F dt ecs [0..<size_pool (vel ecs)] = Some ecs1" by blast
  from gravity_loop_rows[OF g inv] have
    a: "reg ecs1 = reg ecs" "tr ecs1 = tr ecs" "col ecs1 = col ecs" "same_keys (vel ecs) (vel ecs1)"
    and b: "\<forall>d < length (dense_val (vel ecs)).
            dense_val (vel ecs1) ! d =
              (if d \<in> set [0..<size_pool (vel ecs)] then gravity_row F dt (dense_val (vel ecs) ! d)
               else dense_val (vel ecs) ! d)" by auto
  have f: "same_frame ecs ecs1" using a by (simp add: same_frame_def)
  have m1: "malformed ecs1 e" using same_frame_malformed[OF f] m by simp
  have reg1: "unat (ent_idx e) < length (gen (reg ecs1))" using reg a by simp
  have sp: "sys_physics F ecs world dt = resolve_loop F dt ecs1 world [0..<size_pool (col ecs)]"
    by (simp add: sys_physics_def g a)
  have skip: "sys_physics F ecs world dt =
              resolve_loop F dt ecs1 world
                (filter (\<lambda>i. \<not> row_of (col ecs) e i) [0..<size_pool (col ecs)])"
    unfolding sp using resolve_loop_skip[OF m1 reg1, of F dt world "[0..<size_pool (col ecs)]"]
    by (simp add: a)
  have p1: "\<exists>ecs1. gravity_loop F dt ecs [0..<size_pool (vel ecs)] = Some ecs1 \<and>
            sys_physics F ecs world dt =
              resolve_loop F dt ecs1 world
                (filter (\<lambda>i. \<not> row_of (col ecs) e i) [0..<size_pool (col ecs)])"
    using g skip by blast
  have p2: "resolve_axis_x F ecs world e dt = Some (ecs, world)"
    by (rule resolve_axis_x_skip[OF m])
  have p3: "resolve_axis_y F ecs world e dt = Some (ecs, world)"
    by (rule resolve_axis_y_skip[OF m])
  have p4: "\<exists>ecs'. sys_physics F ecs world dt = Some (ecs', world)"
    if all: "\<forall>i < size_pool (col ecs). \<exists>e'. row_of (col ecs) e' i \<and>
               unat (ent_idx e') < length (gen (reg ecs)) \<and> malformed ecs e'"
  proof -
    have "\<forall>i \<in> set [0..<size_pool (col ecs)].
            \<exists>e'. row_of (col ecs1) e' i \<and> unat (ent_idx e') < length (gen (reg ecs1)) \<and>
                 malformed ecs1 e'"
      using all by (simp add: a same_frame_malformed[OF f])
    from resolve_loop_all_malformed[OF this, of F dt world] show ?thesis
      unfolding sp by blast
  qed
  have v1: "get (vel ecs1) e = map_option (gravity_row F dt) (get (vel ecs) e)"
  proof (cases "get_pos (vel ecs) e")
    case None
    then show ?thesis using same_keys_get_pos[OF a(4), of e] by (simp add: get_def)
  next
    case (Some d)
    from get_pos_owner[OF Some] inv have d: "d < length (dense_val (vel ecs))" "d < size_pool (vel ecs)"
      by (simp_all add: pool_inv_def size_pool_def)
    with b have "dense_val (vel ecs1) ! d = gravity_row F dt (dense_val (vel ecs) ! d)" by simp
    then show ?thesis using Some same_keys_get_pos[OF a(4), of e] by (simp add: get_def)
  qed
  have p5: "get (tr ecs') e = get (tr ecs) e \<and> get (col ecs') e = get (col ecs) e \<and>
            get (vel ecs') e = map_option (gravity_row F dt) (get (vel ecs) e)"
    if run: "sys_physics F ecs world dt = Some (ecs', world')" for ecs' world'
  proof -
    from run have r: "resolve_loop F dt ecs1 world [0..<size_pool (col ecs1)] = Some (ecs', world')"
      by (simp add: sys_physics_def g)
    from resolve_loop_frame[OF r m1] have
      "get (tr ecs') e = get (tr ecs1) e" "get (vel ecs') e = get (vel ecs1) e"
      "get (col ecs') e = get (col ecs1) e" by auto
    then show ?thesis using a v1 by simp
  qed
  from p1 p2 p3 p4 p5 show ?thesis by blast
qed

text \<open>
  The witness: entity 0 of \<open>partial_ecs\<close> has a collider row and no velocity. The
  resolution loop reaches its row and passes over it; the tick completes.
\<close>

theorem malformed_entity_skipped_witness:
  "pool_inv (vel partial_ecs) \<and> registered (reg partial_ecs) (vel partial_ecs) \<and>
   unat (ent_idx (make_ent 0 1)) < length (gen (reg partial_ecs)) \<and>
   malformed partial_ecs (make_ent 0 1) \<and>
   row_of (col partial_ecs) (make_ent 0 1) 0 \<and>
   sys_physics exact_ops partial_ecs floor_world (Some (1 / 64)) = Some (partial_ecs_after, floor_world) \<and>
   get (tr partial_ecs_after) (make_ent 0 1) = get (tr partial_ecs) (make_ent 0 1) \<and>
   get (col partial_ecs_after) (make_ent 0 1) = get (col partial_ecs) (make_ent 0 1) \<and>
   get (vel partial_ecs_after) (make_ent 0 1) = None"
proof -
  have inv: "pool_inv (vel partial_ecs)"
    by (auto simp: pool_inv_def partial_ecs_def less_Suc_eq nth_Cons' numeral_2_eq_2)
  have rv: "registered (reg partial_ecs) (vel partial_ecs)"
    by (simp add: registered_def partial_ecs_def)
  have reg: "unat (ent_idx (make_ent 0 1)) < length (gen (reg partial_ecs))"
    by (simp add: partial_ecs_def)
  have m: "malformed partial_ecs (make_ent 0 1)"
    by (simp add: malformed_def get_None_iff partial_get_pos)
  have row: "row_of (col partial_ecs) (make_ent 0 1) 0"
    by (simp add: row_of_def partial_ecs_def)
  have rows: "filter (\<lambda>i. \<not> row_of (col partial_ecs) (make_ent 0 1) i) [0..<size_pool (col partial_ecs)] = []"
    by (simp add: row_of_def size_pool_def partial_ecs_def)
  note t = malformed_entity_skipped [OF inv rv reg m, of exact_ops "Some (1 / 64)" floor_world]
  from t have run: "sys_physics exact_ops partial_ecs floor_world (Some (1 / 64)) =
                      Some (partial_ecs_after, floor_world)"
    by (simp add: partial_gravity rows)
  from t run have g: "get (tr partial_ecs_after) (make_ent 0 1) = get (tr partial_ecs) (make_ent 0 1) \<and>
     get (col partial_ecs_after) (make_ent 0 1) = get (col partial_ecs) (make_ent 0 1) \<and>
     get (vel partial_ecs_after) (make_ent 0 1) =
       map_option (gravity_row exact_ops (Some (1 / 64))) (get (vel partial_ecs) (make_ent 0 1))"
    by blast
  have "get (vel partial_ecs) (make_ent 0 1) = None" by (simp add: get_def partial_get_pos)
  with g inv rv reg m row run show ?thesis by simp
qed

end
